theory Spec2Isabelle
  imports Main
begin

section \<open>JavaScript strings\<close>

text \<open>
  A JavaScript string is a sequence of UTF-16 code units; a code unit is modelled as a
  natural number, so that the bullet glyph U+2022 and the Unicode white space of
  \<^verbatim>\<open>\s\<close> and \<^verbatim>\<open>trim()\<close> are ordinary values. ASCII literals are written
  \<open>lit ''...''\<close>; the backslash is code unit 92 and the line feed is code unit 10.
\<close>

type_synonym jsstring = "nat list"

definition lit :: "string \<Rightarrow> jsstring" where
  "lit s = map of_char s"

text \<open>WhiteSpace and LineTerminator of ECMAScript: what \<^verbatim>\<open>\s\<close> matches and \<^verbatim>\<open>trim()\<close> strips.\<close>

definition is_ws :: "nat \<Rightarrow> bool" where
  "is_ws c \<longleftrightarrow> c = 9 \<or> c = 10 \<or> c = 11 \<or> c = 12 \<or> c = 13 \<or> c = 32 \<or> c = 160 \<or> c = 5760
     \<or> (8192 \<le> c \<and> c \<le> 8202) \<or> c = 8232 \<or> c = 8233 \<or> c = 8239 \<or> c = 8287
     \<or> c = 12288 \<or> c = 65279"

definition is_line_terminator :: "nat \<Rightarrow> bool" where
  "is_line_terminator c \<longleftrightarrow> c = 10 \<or> c = 13 \<or> c = 8232 \<or> c = 8233"

definition trim :: "jsstring \<Rightarrow> jsstring" where
  "trim s = rev (dropWhile is_ws (rev (dropWhile is_ws s)))"

text \<open>Number to string, as a template literal does it for a non-negative integer.\<close>

fun show_nat :: "nat \<Rightarrow> jsstring" where
  "show_nat n = (if n < 10 then [48 + n] else show_nat (n div 10) @ [48 + n mod 10])"

declare show_nat.simps [simp del]

text \<open>
  What the code can do other than return: raise a TypeError (a method called on
  \<^verbatim>\<open>undefined\<close>), raise a RangeError (a call with more arguments than the engine
  accepts), or stay in a \<^verbatim>\<open>while\<close> loop forever.
\<close>

datatype failure = TypeError | RangeError | NoReturn

section \<open>Regular expressions\<close>

text \<open>
  The backtracking matcher of ECMAScript (a matcher takes a state and a continuation and
  returns the first success in priority order), for the constructs the regular
  expressions of this program use: literal characters (case sensitive, or compared after
  canonicalisation under the flag \<^verbatim>\<open>i\<close>), character classes, sequence, alternation,
  greedy and lazy repetition of a character class, capture groups, positive lookahead,
  \<^verbatim>\<open>^\<close> without the flag \<^verbatim>\<open>m\<close> (\<open>Bos\<close>) and with it (\<open>Bol\<close>), and \<^verbatim>\<open>$\<close> without it. Every quantifier of the program
  applies to a single character or class, or is the optional \<^verbatim>\<open>?\<close> of a part that cannot
  match the empty string, and no capture group stands under a quantifier.

  A state is the position, the character before it (for \<^verbatim>\<open>^\<close>), the rest of the input
  and the captures (start and end position of each group that took part).
\<close>

text \<open>
  Canonicalisation of the flag \<^verbatim>\<open>i\<close> without the flag \<^verbatim>\<open>u\<close>: a character is upper-cased,
  and a character outside ASCII never becomes an ASCII one. Every pattern character of
  the program is ASCII, so only the ASCII letters matter.
\<close>

definition canonicalize :: "nat \<Rightarrow> nat" where
  "canonicalize c = (if 97 \<le> c \<and> c \<le> 122 then c - 32 else c)"

type_synonym caps = "nat \<Rightarrow> (nat \<times> nat) option"

type_synonym mstate = "nat \<times> nat option \<times> jsstring \<times> caps"

datatype regex =
    Lit jsstring
  | LitI jsstring
  | Cls "nat \<Rightarrow> bool"
  | Eps
  | Seq regex regex
  | Alt regex regex
  | Star bool "nat \<Rightarrow> bool"
  | Group nat regex
  | Look regex
  | Bos
  | Bol
  | Eol

text \<open>
  A literal string is matched character by character, each one equal to the input's
  after \<open>canon\<close>: the identity, or \<open>canonicalize\<close> for a pattern with the flag \<^verbatim>\<open>i\<close>.
  The result is the last character read and the rest of the input.
\<close>

fun strip :: "(nat \<Rightarrow> nat) \<Rightarrow> jsstring \<Rightarrow> nat option \<Rightarrow> jsstring
                \<Rightarrow> (nat option \<times> jsstring) option" where
  "strip canon [] p xs = Some (p, xs)"
| "strip canon (c # s) p [] = None"
| "strip canon (c # s) p (x # xs) =
     (if canon x = canon c then strip canon s (Some x) xs else None)"

text \<open>\<open>Star True f\<close> is the greedy \<^verbatim>\<open>[f]*\<close>, \<open>Star False f\<close> the lazy \<^verbatim>\<open>[f]*?\<close>.\<close>

fun star :: "bool \<Rightarrow> (nat \<Rightarrow> bool) \<Rightarrow> nat \<Rightarrow> nat option \<Rightarrow> jsstring \<Rightarrow> caps
               \<Rightarrow> (mstate \<Rightarrow> mstate option) \<Rightarrow> mstate option" where
  "star greedy f i p [] cs k = k (i, p, [], cs)"
| "star greedy f i p (x # xs) cs k =
     (if greedy
      then (case (if f x then star greedy f (i + 1) (Some x) xs cs k else None) of
              Some r \<Rightarrow> Some r
            | None \<Rightarrow> k (i, p, x # xs, cs))
      else (case k (i, p, x # xs, cs) of
              Some r \<Rightarrow> Some r
            | None \<Rightarrow> if f x then star greedy f (i + 1) (Some x) xs cs k else None))"

fun ms :: "regex \<Rightarrow> mstate \<Rightarrow> (mstate \<Rightarrow> mstate option) \<Rightarrow> mstate option" where
  "ms (Lit s) (i, p, xs, cs) k =
     (case strip (\<lambda>c. c) s p xs of
        None \<Rightarrow> None
      | Some (q, ys) \<Rightarrow> k (i + length s, q, ys, cs))"
| "ms (LitI s) (i, p, xs, cs) k =
     (case strip canonicalize s p xs of
        None \<Rightarrow> None
      | Some (q, ys) \<Rightarrow> k (i + length s, q, ys, cs))"
| "ms (Cls f) (i, p, xs, cs) k =
     (case xs of
        [] \<Rightarrow> None
      | x # xs' \<Rightarrow> if f x then k (i + 1, Some x, xs', cs) else None)"
| "ms Eps (i, p, xs, cs) k = k (i, p, xs, cs)"
| "ms (Seq a b) (i, p, xs, cs) k = ms a (i, p, xs, cs) (\<lambda>st'. ms b st' k)"
| "ms (Alt a b) (i, p, xs, cs) k =
     (case ms a (i, p, xs, cs) k of
        Some r \<Rightarrow> Some r
      | None \<Rightarrow> ms b (i, p, xs, cs) k)"
| "ms (Star greedy f) (i, p, xs, cs) k = star greedy f i p xs cs k"
| "ms (Group n r) (i, p, xs, cs) k =
     ms r (i, p, xs, cs) (\<lambda>(j, q, ys, cs'). k (j, q, ys, cs'(n \<mapsto> (i, j))))"
| "ms (Look r) (i, p, xs, cs) k =
     (case ms r (i, p, xs, cs) Some of
        None \<Rightarrow> None
      | Some (j, q, ys, cs') \<Rightarrow> k (i, p, xs, cs'))"
| "ms Bos (i, p, xs, cs) k = (if i = 0 then k (i, p, xs, cs) else None)"
| "ms Bol (i, p, xs, cs) k =
     (case p of
        None \<Rightarrow> k (i, p, xs, cs)
      | Some c \<Rightarrow> if is_line_terminator c then k (i, p, xs, cs) else None)"
| "ms Eol (i, p, xs, cs) k = (if xs = [] then k (i, p, xs, cs) else None)"

text \<open>A single character, \<^verbatim>\<open>x+\<close> and \<^verbatim>\<open>x?\<close> as the matcher sees them.\<close>

definition Chr :: "nat \<Rightarrow> regex" where
  "Chr c = Lit [c]"

definition Plus :: "(nat \<Rightarrow> bool) \<Rightarrow> regex" where
  "Plus f = Seq (Cls f) (Star True f)"

definition Opt :: "regex \<Rightarrow> regex" where
  "Opt r = Alt r Eps"

fun ngroups :: "regex \<Rightarrow> nat" where
  "ngroups (Seq a b) = max (ngroups a) (ngroups b)"
| "ngroups (Alt a b) = max (ngroups a) (ngroups b)"
| "ngroups (Group n r) = max n (ngroups r)"
| "ngroups (Look r) = ngroups r"
| "ngroups _ = 0"

text \<open>
  The match array of \<^verbatim>\<open>exec\<close>: \<open>m_text\<close> is \<^verbatim>\<open>match[0]\<close> and \<open>m_groups\<close> holds
  \<^verbatim>\<open>match[1]\<close>, \<^verbatim>\<open>match[2]\<close>, ...; a group that took no part is \<^verbatim>\<open>undefined\<close>, here
  \<open>None\<close>, and so is an index beyond the groups of the pattern. \<open>m_lastIndex\<close> is the
  end of the match, which a regular expression with the flag \<^verbatim>\<open>g\<close> stores in
  \<^verbatim>\<open>lastIndex\<close>.
\<close>

record jsmatch =
  m_index :: nat
  m_lastIndex :: nat
  m_text :: jsstring
  m_groups :: "jsstring option list"

definition grp :: "jsmatch \<Rightarrow> nat \<Rightarrow> jsstring option" where
  "grp m n = (if n = 0 then Some (m_text m)
              else if n \<le> length (m_groups m) then m_groups m ! (n - 1) else None)"

definition slice :: "jsstring \<Rightarrow> nat \<Rightarrow> nat \<Rightarrow> jsstring" where
  "slice s a b = take (b - a) (drop a s)"

text \<open>The search of \<^verbatim>\<open>exec\<close>: the first start position, from \<open>i\<close> on, where the pattern matches.\<close>

fun scan :: "regex \<Rightarrow> nat \<Rightarrow> nat option \<Rightarrow> jsstring \<Rightarrow> jsmatch option" where
  "scan r i p xs =
     (case ms r (i, p, xs, Map.empty) Some of
        Some (j, q, ys, cs) \<Rightarrow>
          Some \<lparr>m_index = i, m_lastIndex = j, m_text = take (j - i) xs,
                m_groups = map (\<lambda>n. map_option (\<lambda>(a, b). slice xs (a - i) (b - i)) (cs n))
                               [1..<Suc (ngroups r)]\<rparr>
      | None \<Rightarrow> (case xs of [] \<Rightarrow> None | x # xs' \<Rightarrow> scan r (i + 1) (Some x) xs'))"

declare scan.simps [simp del]

definition exec :: "regex \<Rightarrow> jsstring \<Rightarrow> nat \<Rightarrow> jsmatch option" where
  "exec r s lastIndex =
     (if length s < lastIndex then None
      else scan r lastIndex (if lastIndex = 0 then None else Some (s ! (lastIndex - 1)))
             (drop lastIndex s))"

text \<open>\<^verbatim>\<open>String.prototype.match\<close> and \<^verbatim>\<open>RegExp.prototype.test\<close> of a pattern without the flag \<^verbatim>\<open>g\<close>.\<close>

definition match :: "jsstring \<Rightarrow> regex \<Rightarrow> jsmatch option" where
  "match s r = exec r s 0"

definition test :: "regex \<Rightarrow> jsstring \<Rightarrow> bool" where
  "test r s = (exec r s 0 \<noteq> None)"

subsection \<open>What a match can be\<close>

text \<open>
  The least length of a match and the groups that every match defines, read off the
  pattern.
\<close>

fun minlen :: "regex \<Rightarrow> nat" where
  "minlen (Lit s) = length s"
| "minlen (LitI s) = length s"
| "minlen (Cls f) = 1"
| "minlen (Seq a b) = minlen a + minlen b"
| "minlen (Alt a b) = min (minlen a) (minlen b)"
| "minlen (Group n r) = minlen r"
| "minlen _ = 0"

fun sure :: "regex \<Rightarrow> nat set" where
  "sure (Seq a b) = sure a \<union> sure b"
| "sure (Alt a b) = sure a \<inter> sure b"
| "sure (Group n r) = insert n (sure r)"
| "sure (Look r) = sure r"
| "sure _ = {}"

text \<open>
  \<open>reaches k res i xs cs L G\<close>: the continuation \<open>k\<close> gave \<open>res\<close> on a state that lies at
  least \<open>L\<close> characters after position \<open>i\<close> of the input \<open>xs\<close>, within the input, and
  whose captures define the groups \<open>G\<close> and those that \<open>cs\<close> defines.
\<close>

definition reaches :: "(mstate \<Rightarrow> mstate option) \<Rightarrow> mstate \<Rightarrow> nat \<Rightarrow> jsstring \<Rightarrow> caps
                        \<Rightarrow> nat \<Rightarrow> nat set \<Rightarrow> bool" where
  "reaches k res i xs cs L G \<longleftrightarrow>
     (\<exists>j q ys cs'. k (j, q, ys, cs') = Some res \<and> i + L \<le> j \<and> j + length ys = i + length xs
        \<and> (\<forall>n. n \<in> G \<or> cs n \<noteq> None \<longrightarrow> cs' n \<noteq> None))"

lemma reachesI:
  "k (j, q, ys, cs') = Some res \<Longrightarrow> i + L \<le> j \<Longrightarrow> j + length ys = i + length xs \<Longrightarrow>
   (\<And>n. n \<in> G \<or> cs n \<noteq> None \<Longrightarrow> cs' n \<noteq> None) \<Longrightarrow> reaches k res i xs cs L G"
  unfolding reaches_def by blast

lemma reachesE:
  assumes "reaches k res i xs cs L G"
  obtains j q ys cs' where "k (j, q, ys, cs') = Some res" "i + L \<le> j"
    "j + length ys = i + length xs" "\<And>n. n \<in> G \<or> cs n \<noteq> None \<Longrightarrow> cs' n \<noteq> None"
  using assms unfolding reaches_def by blast

lemma reaches_weaken:
  "reaches k res i xs cs L G \<Longrightarrow> L' \<le> L \<Longrightarrow> G' \<subseteq> G \<Longrightarrow> reaches k res i xs cs L' G'"
  unfolding reaches_def by (elim exE conjE, intro exI conjI) (assumption | simp | blast)+

lemma star_result:
  "star g f i p xs cs k = Some res \<Longrightarrow> reaches k res i xs cs 0 {}"
proof (induction xs arbitrary: i p)
  case Nil
  then show ?case by (intro reachesI[of k i p "[]" cs]) simp_all
next
  case (Cons x xs)
  show ?case
  proof (cases "k (i, p, x # xs, cs) = Some res")
    case True
    then show ?thesis by (intro reachesI[of k i p "x # xs" cs]) simp_all
  next
    case False
    with Cons.prems have "star g f (i + 1) (Some x) xs cs k = Some res"
      by (auto split: if_splits option.splits)
    from Cons.IH[OF this] obtain j q ys cs' where
      "k (j, q, ys, cs') = Some res" "i + 1 \<le> j" "j + length ys = i + 1 + length xs"
      "\<forall>n. cs n \<noteq> None \<longrightarrow> cs' n \<noteq> None"
      unfolding reaches_def by auto
    then show ?thesis by (intro reachesI[of k j q ys cs']) simp_all
  qed
qed

lemma strip_append: "strip canon s p xs = Some (q, ys) \<Longrightarrow> length xs = length s + length ys"
  by (induction canon s p xs rule: strip.induct) (auto split: if_splits)

lemma ms_result:
  "ms r (i, p, xs, cs) k = Some res \<Longrightarrow> reaches k res i xs cs (minlen r) (sure r)"
proof (induction r arbitrary: i p xs cs k res)
  case (Lit s)
  then obtain q ys where "strip (\<lambda>c. c) s p xs = Some (q, ys)"
    "k (i + length s, q, ys, cs) = Some res"
    by (auto split: option.splits)
  then show ?case
    using strip_append[of "\<lambda>c. c" s p xs q ys]
    by (intro reachesI[of k "i + length s" q ys cs]) simp_all
next
  case (LitI s)
  then obtain q ys where "strip canonicalize s p xs = Some (q, ys)"
    "k (i + length s, q, ys, cs) = Some res"
    by (auto split: option.splits)
  then show ?case
    using strip_append[of canonicalize s p xs q ys]
    by (intro reachesI[of k "i + length s" q ys cs]) simp_all
next
  case (Cls f)
  then obtain x xs' where "xs = x # xs'" "k (i + 1, Some x, xs', cs) = Some res"
    by (cases xs) (auto split: if_splits)
  then show ?case by (intro reachesI[of k "i + 1" "Some x" xs' cs]) simp_all
next
  case Eps
  then show ?case by (intro reachesI[of k i p xs cs]) simp_all
next
  case (Seq a b)
  from Seq.prems have "ms a (i, p, xs, cs) (\<lambda>st'. ms b st' k) = Some res" by simp
  from Seq.IH(1)[OF this] obtain j q ys cs' where
    b: "ms b (j, q, ys, cs') k = Some res" and
    j: "i + minlen a \<le> j" "j + length ys = i + length xs" and
    c: "\<forall>n. n \<in> sure a \<or> cs n \<noteq> None \<longrightarrow> cs' n \<noteq> None"
    unfolding reaches_def by blast
  from Seq.IH(2)[OF b] obtain j' q' ys' cs'' where
    k: "k (j', q', ys', cs'') = Some res" and
    j': "j + minlen b \<le> j'" "j' + length ys' = j + length ys" and
    c': "\<forall>n. n \<in> sure b \<or> cs' n \<noteq> None \<longrightarrow> cs'' n \<noteq> None"
    unfolding reaches_def by blast
  show ?case
  proof (intro reachesI[of k j' q' ys' cs''])
    show "k (j', q', ys', cs'') = Some res" by (rule k)
    show "i + minlen (Seq a b) \<le> j'" using j j' by simp
    show "j' + length ys' = i + length xs" using j j' by simp
    show "cs'' n \<noteq> None" if "n \<in> sure (Seq a b) \<or> cs n \<noteq> None" for n
      using that c c' by auto
  qed
next
  case (Alt a b)
  then have "ms a (i, p, xs, cs) k = Some res \<or> ms b (i, p, xs, cs) k = Some res"
    by (auto split: option.splits)
  then show ?case
    using Alt.IH(1)[of i p xs cs k res] Alt.IH(2)[of i p xs cs k res]
    by (auto intro: reaches_weaken)
next
  case (Star g f)
  then show ?case using star_result[of g f i p xs cs k res] by simp
next
  case (Group n r)
  from Group.prems
  have "ms r (i, p, xs, cs) (\<lambda>(j, q, ys, cs'). k (j, q, ys, cs'(n \<mapsto> (i, j)))) = Some res"
    by simp
  from Group.IH[OF this] obtain j q ys cs' where
    "k (j, q, ys, cs'(n \<mapsto> (i, j))) = Some res" "i + minlen r \<le> j"
    "j + length ys = i + length xs"
    "\<forall>m. m \<in> sure r \<or> cs m \<noteq> None \<longrightarrow> cs' m \<noteq> None"
    unfolding reaches_def by auto
  then show ?case by (intro reachesI[of k j q ys "cs'(n \<mapsto> (i, j))"]) auto
next
  case (Look r)
  then obtain j q ys cs' where l: "ms r (i, p, xs, cs) Some = Some (j, q, ys, cs')"
    and k: "k (i, p, xs, cs') = Some res"
    by (auto split: option.splits)
  from Look.IH[OF l] have c: "\<forall>n. n \<in> sure r \<or> cs n \<noteq> None \<longrightarrow> cs' n \<noteq> None"
    unfolding reaches_def by auto
  show ?case
  proof (intro reachesI[of k i p xs cs'])
    show "k (i, p, xs, cs') = Some res" by (rule k)
    show "cs' n \<noteq> None" if "n \<in> sure (Look r) \<or> cs n \<noteq> None" for n
    proof -
      from that have "n \<in> sure r \<or> cs n \<noteq> None" by simp
      with c show ?thesis by blast
    qed
  qed simp_all
next
  case Bos
  then have "k (i, p, xs, cs) = Some res" by (auto split: if_splits)
  then show ?case by (intro reachesI[of k i p xs cs]) simp_all
next
  case Bol
  then have "k (i, p, xs, cs) = Some res" by (auto split: option.splits if_splits)
  then show ?case by (intro reachesI[of k i p xs cs]) simp_all
next
  case Eol
  then have "k (i, p, xs, cs) = Some res" by (auto split: if_splits)
  then show ?case by (intro reachesI[of k i p xs cs]) simp_all
qed

lemma ms_Some:
  assumes "ms r (i, p, xs, cs) Some = Some (j, q, ys, cs')"
  shows "i + minlen r \<le> j" and "j \<le> i + length xs" and "n \<in> sure r \<Longrightarrow> cs' n \<noteq> None"
  using ms_result[OF assms] unfolding reaches_def by auto

lemma sure_le_ngroups: "n \<in> sure r \<Longrightarrow> n \<le> ngroups r"
  by (induction r) auto

text \<open>A match is at least as long as the pattern demands, and defines the pattern's sure groups.\<close>

lemma scan_props:
  "scan r i p xs = Some m \<Longrightarrow>
   i \<le> m_index m \<and> m_index m + minlen r \<le> m_lastIndex m \<and> m_lastIndex m \<le> i + length xs
   \<and> (\<forall>n \<in> sure r. grp m n \<noteq> None)"
proof (induction r i p xs rule: scan.induct)
  case (1 r i p xs)
  show ?case
  proof (cases "ms r (i, p, xs, Map.empty) Some")
    case None
    with "1.prems" obtain x xs' where xs: "xs = x # xs'" and
      s: "scan r (i + 1) (Some x) xs' = Some m"
      by (cases xs) (auto simp: scan.simps[of r i p])
    from "1.IH"[OF None xs s] xs show ?thesis by simp
  next
    case (Some st)
    obtain j q ys cs where st: "st = (j, q, ys, cs)" by (cases st) auto
    note b = ms_Some[OF Some[unfolded st]]
    from "1.prems" Some st have m: "m_index m = i" "m_lastIndex m = j"
      "m_groups m = map (\<lambda>n. map_option (\<lambda>(a, b). slice xs (a - i) (b - i)) (cs n))
                        [1..<Suc (ngroups r)]"
      by (auto simp: scan.simps[of r i p])
    have "grp m n \<noteq> None" if n: "n \<in> sure r" for n
    proof (cases "n = 0")
      case True
      then show ?thesis by (simp add: grp_def)
    next
      case False
      with sure_le_ngroups[OF n] have "[1..<Suc (ngroups r)] ! (n - 1) = n"
        by (simp add: nth_upt del: upt_Suc)
      with False sure_le_ngroups[OF n] b(3)[OF n] show ?thesis
        by (auto simp: grp_def m(3) simp del: upt_Suc)
    qed
    with b(1,2) m(1,2) show ?thesis by simp
  qed
qed

lemma exec_props:
  assumes "exec r s i = Some m"
  shows "i \<le> m_index m" and "m_index m + minlen r \<le> m_lastIndex m"
    and "m_lastIndex m \<le> length s" and "n \<in> sure r \<Longrightarrow> grp m n \<noteq> None"
  using assms by (auto simp: exec_def split: if_splits dest!: scan_props)

lemma exec_bounds:
  "exec r s i = Some m \<Longrightarrow>
   i \<le> m_index m \<and> m_index m \<le> m_lastIndex m \<and> m_lastIndex m \<le> length s"
  using exec_props(1,2,3)[of r s i m] by simp

text \<open>
  \<^verbatim>\<open>String.prototype.matchAll\<close>: the matches of a pattern with the flag \<^verbatim>\<open>g\<close>, one
  after the other; after an empty match the iterator moves \<^verbatim>\<open>lastIndex\<close> one further.
\<close>

function matchAll :: "regex \<Rightarrow> jsstring \<Rightarrow> nat \<Rightarrow> jsmatch list" where
  "matchAll r s lastIndex =
     (case exec r s lastIndex of
        None \<Rightarrow> []
      | Some m \<Rightarrow>
          m # matchAll r s (if m_lastIndex m = m_index m then m_lastIndex m + 1
                            else m_lastIndex m))"
  by pat_completeness auto
termination
proof (relation "measure (\<lambda>(r, s, i). length s + 1 - i)", goal_cases)
  case 1
  show ?case by simp
next
  case (2 r s lastIndex m)
  from exec_bounds[OF 2] show ?case by auto
qed

declare matchAll.simps [simp del]

section \<open>The chunk model (types.ts)\<close>

datatype chunk_type = Section | Subsection | Item

record chunk_metadata =
  company :: "jsstring option"
  position :: "jsstring option"
  dates :: "jsstring option"
  location :: "jsstring option"

text \<open>
  \<open>chunk\<close> is \<^verbatim>\<open>Omit<ResumeChunk, "order" | "isActive">\<close>, what the parsers build;
  \<open>ResumeChunk\<close> adds the two fields. An optional field that is absent is \<open>None\<close>.
\<close>

record chunk =
  chunk_id :: jsstring
  chunk_type :: chunk_type
  title :: jsstring
  content :: jsstring
  rawLatex :: jsstring
  parentId :: "jsstring option"
  tags :: "jsstring list option"
  metadata :: "chunk_metadata option"

record ResumeChunk = chunk +
  order :: int
  isActive :: bool

record ResumeData =
  preamble :: jsstring
  activeChunks :: "ResumeChunk list"
  standbyChunks :: "ResumeChunk list"
  documentClass :: "jsstring option"
  packages :: "jsstring option list"

section \<open>The structural parser (latex-parser.ts)\<close>

subsection \<open>Its regular expressions\<close>

definition any_char :: "nat \<Rightarrow> bool" where
  "any_char c = True"

definition dot_char :: "nat \<Rightarrow> bool" where
  "dot_char c \<longleftrightarrow> \<not> is_line_terminator c"

definition not_rbrace :: "nat \<Rightarrow> bool" where
  "not_rbrace c \<longleftrightarrow> c \<noteq> 125"

definition is_digit :: "nat \<Rightarrow> bool" where
  "is_digit c \<longleftrightarrow> 48 \<le> c \<and> c \<le> 57"

text \<open>\<^verbatim>\<open>/([\s\S]*?)\\begin\{document\}/\<close>\<close>

definition preambleRegex :: regex where
  "preambleRegex = Seq (Group 1 (Star False any_char)) (Lit (92 # lit ''begin{document}''))"

text \<open>\<^verbatim>\<open>/\\begin\{document\}([\s\S]*?)\\end\{document\}/\<close>\<close>

definition bodyRegex :: regex where
  "bodyRegex =
     Seq (Lit (92 # lit ''begin{document}''))
    (Seq (Group 1 (Star False any_char))
         (Lit (92 # lit ''end{document}'')))"

text \<open>\<^verbatim>\<open>/\\documentclass(?:\[.*?\])?\{(.*?)\}/\<close>\<close>

definition docClassRegex :: regex where
  "docClassRegex =
     Seq (Lit (92 # lit ''documentclass''))
    (Seq (Opt (Seq (Chr 91) (Seq (Star False dot_char) (Chr 93))))
    (Seq (Chr 123)
    (Seq (Group 1 (Star False dot_char))
         (Chr 125))))"

text \<open>\<^verbatim>\<open>/\\usepackage(?:\[.*?\])?\{(.*?)\}/g\<close>\<close>

definition packageRegex :: regex where
  "packageRegex =
     Seq (Lit (92 # lit ''usepackage''))
    (Seq (Opt (Seq (Chr 91) (Seq (Star False dot_char) (Chr 93))))
    (Seq (Chr 123)
    (Seq (Group 1 (Star False dot_char))
         (Chr 125))))"

text \<open>\<^verbatim>\<open>/\\section\*?\{([^}]+)\}([\s\S]*?)(?=\\section|$)/g\<close>\<close>

definition sectionRegex :: regex where
  "sectionRegex =
     Seq (Lit (92 # lit ''section''))
    (Seq (Opt (Chr 42))
    (Seq (Chr 123)
    (Seq (Group 1 (Plus not_rbrace))
    (Seq (Chr 125)
    (Seq (Group 2 (Star False any_char))
         (Look (Alt (Lit (92 # lit ''section'')) Eol)))))))"

text \<open>\<^verbatim>\<open>/\\subsection\*?\{([^}]+)\}([\s\S]*?)(?=\\subsection|\\section|$)/g\<close>\<close>

definition subsectionPattern :: regex where
  "subsectionPattern =
     Seq (Lit (92 # lit ''subsection''))
    (Seq (Opt (Chr 42))
    (Seq (Chr 123)
    (Seq (Group 1 (Plus not_rbrace))
    (Seq (Chr 125)
    (Seq (Group 2 (Star False any_char))
         (Look (Alt (Lit (92 # lit ''subsection''))
               (Alt (Lit (92 # lit ''section'')) Eol))))))))"

text \<open>\<^verbatim>\<open>/\\item\s+([\s\S]*?)(?=\\item|\\end\{itemize\}|\\end\{enumerate\}|$)/g\<close>\<close>

definition itemPattern :: regex where
  "itemPattern =
     Seq (Lit (92 # lit ''item''))
    (Seq (Plus is_ws)
    (Seq (Group 1 (Star False any_char))
         (Look (Alt (Lit (92 # lit ''item''))
               (Alt (Lit (92 # lit ''end{itemize}''))
               (Alt (Lit (92 # lit ''end{enumerate}'')) Eol))))))"

text \<open>\<^verbatim>\<open>/\\cventry\{([^}]*)\}\{([^}]*)\}\{([^}]*)\}\{([^}]*)\}\{([^}]*)\}\{([^}]*)\}/g\<close>\<close>

definition braced :: "nat \<Rightarrow> regex" where
  "braced n = Seq (Chr 123) (Seq (Group n (Star True not_rbrace)) (Chr 125))"

definition cventryPattern :: regex where
  "cventryPattern =
     Seq (Lit (92 # lit ''cventry''))
    (Seq (braced 1) (Seq (braced 2) (Seq (braced 3) (Seq (braced 4) (Seq (braced 5) (braced 6))))))"

definition patterns :: "regex list" where
  "patterns = [subsectionPattern, itemPattern, cventryPattern]"

text \<open>\<^verbatim>\<open>/\{([^}]*\d{4}[^}]*)\}/\<close> and \<^verbatim>\<open>/\\textbf\{([^}]+)\}/\<close>\<close>

definition dateRegex :: regex where
  "dateRegex =
     Seq (Chr 123)
    (Seq (Group 1 (Seq (Star True not_rbrace)
                  (Seq (Cls is_digit) (Seq (Cls is_digit) (Seq (Cls is_digit) (Seq (Cls is_digit)
                       (Star True not_rbrace)))))))
         (Chr 125))"

definition companyRegex :: regex where
  "companyRegex =
     Seq (Lit (92 # lit ''textbf'')) (Seq (Chr 123) (Seq (Group 1 (Plus not_rbrace)) (Chr 125)))"

subsection \<open>extractMetadata\<close>

definition extractMetadata :: "jsstring \<Rightarrow> chunk_metadata" where
  "extractMetadata latex =
     (let dateMatch = match latex dateRegex;
          companyMatch = match latex companyRegex
      in \<lparr>company = (case companyMatch of Some m \<Rightarrow> grp m 1 | None \<Rightarrow> None),
          position = None,
          dates = (case dateMatch of Some m \<Rightarrow> grp m 1 | None \<Rightarrow> None),
          location = None\<rparr>)"

subsection \<open>parseItems\<close>

text \<open>\<^verbatim>\<open>a || b\<close> on values that are a string or \<^verbatim>\<open>undefined\<close>: the empty string is falsy.\<close>

definition js_or :: "jsstring option \<Rightarrow> jsstring option \<Rightarrow> jsstring option" where
  "js_or a b = (case a of None \<Rightarrow> b | Some s \<Rightarrow> if s = [] then b else Some s)"

definition or_default :: "jsstring option \<Rightarrow> jsstring \<Rightarrow> jsstring" where
  "or_default a d = (case a of None \<Rightarrow> d | Some s \<Rightarrow> if s = [] then d else s)"

text \<open>The chunk that one turn of the \<^verbatim>\<open>while\<close> loop pushes.\<close>

definition itemChunk :: "jsstring \<Rightarrow> nat \<Rightarrow> jsmatch \<Rightarrow> chunk" where
  "itemChunk parent itemIndex m =
     (let md = extractMetadata (m_text m)
      in \<lparr>chunk_id = parent @ lit ''-item-'' @ show_nat itemIndex,
          chunk_type = Item,
          title = or_default (js_or (position md) (grp m 1)) (lit ''Item''),
          content = m_text m,
          rawLatex = m_text m,
          parentId = Some parent,
          tags = None,
          metadata = Some md\<rparr>)"

text \<open>
  The \<^verbatim>\<open>while\<close> loop over the matches of one pattern. \<^verbatim>\<open>exec\<close> leaves \<^verbatim>\<open>lastIndex\<close> at
  the end of the match; after an empty match it is where the match was found, the next
  \<^verbatim>\<open>exec\<close> finds the same match, and the loop never ends.
\<close>

function itemLoop :: "regex \<Rightarrow> jsstring \<Rightarrow> jsstring \<Rightarrow> nat \<Rightarrow> nat \<Rightarrow> chunk list
                        \<Rightarrow> failure + nat \<times> chunk list" where
  "itemLoop pattern cont parent lastIndex itemIndex items =
     (case exec pattern cont lastIndex of
        None \<Rightarrow> Inr (itemIndex, items)
      | Some m \<Rightarrow>
          if m_lastIndex m = m_index m then Inl NoReturn
          else itemLoop pattern cont parent (m_lastIndex m) (itemIndex + 1)
                 (items @ [itemChunk parent itemIndex m]))"
  by pat_completeness auto
termination
proof (relation "measure (\<lambda>(pattern, cont, parent, lastIndex, itemIndex, items).
                             length cont - lastIndex)", goal_cases)
  case 1
  show ?case by simp
next
  case (2 pattern cont parent lastIndex itemIndex items m)
  from exec_bounds[OF 2(1)] 2(2) show ?case by auto
qed

declare itemLoop.simps [simp del]

text \<open>\<^verbatim>\<open>patterns.forEach\<close>: every pattern starts at \<^verbatim>\<open>lastIndex = 0\<close>; \<^verbatim>\<open>itemIndex\<close> goes on.\<close>

fun forEachPattern :: "regex list \<Rightarrow> jsstring \<Rightarrow> jsstring \<Rightarrow> nat \<Rightarrow> chunk list
                         \<Rightarrow> failure + nat \<times> chunk list" where
  "forEachPattern [] cont parent itemIndex items = Inr (itemIndex, items)"
| "forEachPattern (pattern # ps) cont parent itemIndex items =
     (case itemLoop pattern cont parent 0 itemIndex items of
        Inl e \<Rightarrow> Inl e
      | Inr (itemIndex', items') \<Rightarrow> forEachPattern ps cont parent itemIndex' items')"

definition parseItems :: "jsstring \<Rightarrow> jsstring \<Rightarrow> failure + chunk list" where
  "parseItems cont parent =
     (case forEachPattern patterns cont parent 0 [] of
        Inl e \<Rightarrow> Inl e
      | Inr (itemIndex, items) \<Rightarrow> Inr items)"

subsection \<open>parseSections\<close>

text \<open>
  \<^verbatim>\<open>toLowerCase\<close> follows the Unicode tables of the runtime; the parser takes it as the
  parameter \<open>lc\<close>. A \<^verbatim>\<open>trim\<close> or \<^verbatim>\<open>toLowerCase\<close> of a group that is \<^verbatim>\<open>undefined\<close>
  raises a TypeError.

  \<^verbatim>\<open>chunks.push(...items)\<close> spreads the items of a section into the arguments of one
  call. An engine accepts only so many arguments in a call and raises a RangeError when
  there are more; how many is the engine's choice, and the parser takes it as the
  parameter \<open>maxArgs\<close>. The section chunk itself is pushed before, with a call of one
  argument.
\<close>

function sectionLoop :: "(jsstring \<Rightarrow> jsstring) \<Rightarrow> nat \<Rightarrow> jsstring \<Rightarrow> nat \<Rightarrow> nat \<Rightarrow> chunk list
                           \<Rightarrow> failure + chunk list" where
  "sectionLoop lc maxArgs body lastIndex globalIndex chunks =
     (case exec sectionRegex body lastIndex of
        None \<Rightarrow> Inr chunks
      | Some m \<Rightarrow>
          (case grp m 2 of
             None \<Rightarrow> Inl TypeError
           | Some g2 \<Rightarrow>
               (case grp m 1 of
                  None \<Rightarrow> Inl TypeError
                | Some sectionTitle \<Rightarrow>
                    (let sectionContent = trim g2;
                         sectionId = lit ''section-'' @ show_nat globalIndex;
                         sec = \<lparr>chunk_id = sectionId,
                                chunk_type = Section,
                                title = sectionTitle,
                                content = sectionContent,
                                rawLatex = m_text m,
                                parentId = None,
                                tags = Some [lc sectionTitle],
                                metadata = None\<rparr>
                     in case parseItems sectionContent sectionId of
                          Inl e \<Rightarrow> Inl e
                        | Inr items \<Rightarrow>
                            if maxArgs < length items then Inl RangeError
                            else if m_lastIndex m = m_index m then Inl NoReturn
                            else sectionLoop lc maxArgs body (m_lastIndex m)
                                   (globalIndex + 1 + length items)
                                   (chunks @ [sec] @ items)))))"
  by pat_completeness auto
termination
proof (relation "measure (\<lambda>(lc, maxArgs, body, lastIndex, globalIndex, chunks).
                             length body - lastIndex)", goal_cases)
  case 1
  show ?case by simp
next
  case (2 lc maxArgs body lastIndex globalIndex chunks m)
  from exec_bounds[OF 2(1)] 2 show ?case by auto
qed

declare sectionLoop.simps [simp del]

definition parseSections :: "(jsstring \<Rightarrow> jsstring) \<Rightarrow> nat \<Rightarrow> jsstring
                             \<Rightarrow> failure + chunk list" where
  "parseSections lc maxArgs body = sectionLoop lc maxArgs body 0 0 []"

subsection \<open>parseLatexFile\<close>

text \<open>\<^verbatim>\<open>chunks.map((chunk, idx) => ({...chunk, order: idx, isActive: true}))\<close>\<close>

definition activate :: "chunk list \<Rightarrow> ResumeChunk list" where
  "activate chunks =
     map (\<lambda>(idx, c). chunk.extend c \<lparr>order = int idx, isActive = True\<rparr>)
         (zip [0..<length chunks] chunks)"

definition parseLatexFile :: "(jsstring \<Rightarrow> jsstring) \<Rightarrow> nat \<Rightarrow> jsstring
                              \<Rightarrow> failure + ResumeData" where
  "parseLatexFile lc maxArgs cont =
     (case (case match cont preambleRegex of
              None \<Rightarrow> Inr []
            | Some m \<Rightarrow> (case grp m 1 of None \<Rightarrow> Inl TypeError | Some g \<Rightarrow> Inr (trim g))) of
        Inl e \<Rightarrow> Inl e
      | Inr pre \<Rightarrow>
          (case (case match cont bodyRegex of
                   None \<Rightarrow> Inr []
                 | Some m \<Rightarrow> (case grp m 1 of None \<Rightarrow> Inl TypeError | Some g \<Rightarrow> Inr (trim g))) of
             Inl e \<Rightarrow> Inl e
           | Inr body \<Rightarrow>
               (let docClass = (case match pre docClassRegex of
                                  Some m \<Rightarrow> grp m 1
                                | None \<Rightarrow> Some (lit ''article''));
                    pkgs = map (\<lambda>m. grp m 1) (matchAll packageRegex pre 0)
                in case parseSections lc maxArgs body of
                     Inl e \<Rightarrow> Inl e
                   | Inr chunks \<Rightarrow>
                       Inr \<lparr>preamble = pre,
                            activeChunks = activate chunks,
                            standbyChunks = [],
                            documentClass = docClass,
                            packages = pkgs\<rparr>)))"

section \<open>The generator (latex-generator)\<close>

text \<open>
  \<^verbatim>\<open>Array.prototype.sort\<close> is stable, and so is \<open>sort_key\<close>. A chunk is a child of a
  section when its \<^verbatim>\<open>parentId\<close> is the section's \<^verbatim>\<open>id\<close>.
\<close>

definition generateLatex :: "ResumeData \<Rightarrow> jsstring" where
  "generateLatex data =
     (let sortedChunks = sort_key order (filter isActive (activeChunks data));
          sectionChunks = filter (\<lambda>c. chunk_type c = Section) sortedChunks
      in preamble data @ [10, 10] @ 92 # lit ''begin{document}'' @ [10, 10]
         @ concat (map (\<lambda>sec.
               rawLatex sec
               @ concat (map (\<lambda>item. 10 # rawLatex item)
                             (filter (\<lambda>c. parentId c = Some (chunk_id sec)) sortedChunks))
               @ [10, 10]) sectionChunks)
         @ 92 # lit ''end{document}'')"

section \<open>String methods that take a regular expression\<close>

text \<open>
  \<^verbatim>\<open>replace\<close> with a pattern without the flag \<^verbatim>\<open>g\<close> replaces the first match; with the
  flag it replaces every match, found as \<^verbatim>\<open>matchAll\<close> finds them. The replacement is a
  function of the match (\<^verbatim>\<open>$&\<close> in a replacement string is the matched text).
\<close>

definition js_replace :: "regex \<Rightarrow> (jsmatch \<Rightarrow> jsstring) \<Rightarrow> jsstring \<Rightarrow> jsstring" where
  "js_replace r repl s =
     (case exec r s 0 of
        None \<Rightarrow> s
      | Some m \<Rightarrow> take (m_index m) s @ repl m @ drop (m_lastIndex m) s)"

definition js_replace_all :: "regex \<Rightarrow> (jsmatch \<Rightarrow> jsstring) \<Rightarrow> jsstring \<Rightarrow> jsstring" where
  "js_replace_all r repl s =
     (case foldl (\<lambda>(nextPos, acc) m. (m_lastIndex m, acc @ slice s nextPos (m_index m) @ repl m))
                 (0, []) (matchAll r s 0) of
        (nextPos, acc) \<Rightarrow> acc @ drop nextPos s)"

text \<open>\<^verbatim>\<open>split\<close> with a string of one character.\<close>

fun split_on :: "nat \<Rightarrow> jsstring \<Rightarrow> jsstring list" where
  "split_on c [] = [[]]"
| "split_on c (x # xs) =
     (if x = c then [] # split_on c xs
      else (case split_on c xs of
              [] \<Rightarrow> [[x]]
            | y # ys \<Rightarrow> (x # y) # ys))"

text \<open>
  \<^verbatim>\<open>split\<close> with a pattern (without capture groups): the pattern is tried at \<open>q\<close> only;
  a match that ends where the last piece ended is passed over.
\<close>

definition prev_at :: "jsstring \<Rightarrow> nat \<Rightarrow> nat option" where
  "prev_at s q = (if q = 0 then None else Some (s ! (q - 1)))"

function splitLoop :: "regex \<Rightarrow> jsstring \<Rightarrow> nat \<Rightarrow> nat \<Rightarrow> jsstring list \<Rightarrow> jsstring list" where
  "splitLoop r s p q acc =
     (if q < length s
      then (case ms r (q, prev_at s q, drop q s, Map.empty) Some of
              None \<Rightarrow> splitLoop r s p (q + 1) acc
            | Some (e, st) \<Rightarrow>
                if min e (length s) = p then splitLoop r s p (q + 1) acc
                else splitLoop r s (min e (length s)) (min e (length s)) (acc @ [slice s p q]))
      else acc @ [slice s p (length s)])"
  by pat_completeness auto
termination
proof (relation "measures [\<lambda>(r, s, p, q, acc). length s - q,
                           \<lambda>(r, s, p, q, acc). if p = q then 0 else 1]", goal_cases)
  case 1
  show ?case by simp
next
  case (2 r s p q acc)
  then show ?case by auto
next
  case (3 r s p q acc st e rest)
  then show ?case by auto
next
  case (4 r s p q acc st e rest)
  obtain pq ys cs where rest: "rest = (pq, ys, cs)" by (cases rest) auto
  from 4 have "ms r (q, prev_at s q, drop q s, Map.empty) Some = Some (e, pq, ys, cs)"
    by (simp add: rest)
  from ms_Some(1)[OF this] have "q \<le> e" by simp
  with 4 show ?case by (auto simp: min_def split: if_splits)
qed

declare splitLoop.simps [simp del]

definition js_split :: "regex \<Rightarrow> jsstring \<Rightarrow> jsstring list" where
  "js_split r s =
     (if s = []
      then (case ms r (0, None, [], Map.empty) Some of None \<Rightarrow> [[]] | Some st \<Rightarrow> [])
      else splitLoop r s 0 0 [])"

text \<open>\<^verbatim>\<open>join\<close> and \<^verbatim>\<open>startsWith\<close>.\<close>

fun join :: "jsstring \<Rightarrow> jsstring list \<Rightarrow> jsstring" where
  "join sep [] = []"
| "join sep [x] = x"
| "join sep (x # y # zs) = x @ sep @ join sep (y # zs)"

definition startsWith :: "jsstring \<Rightarrow> jsstring \<Rightarrow> bool" where
  "startsWith s pre \<longleftrightarrow> take (length pre) s = pre"

section \<open>The heuristic segmenter (pdf-parser)\<close>

subsection \<open>escapeLatex\<close>

definition special_char :: "nat \<Rightarrow> bool" where
  "special_char c \<longleftrightarrow> c = 38 \<or> c = 37 \<or> c = 36 \<or> c = 35 \<or> c = 95 \<or> c = 123 \<or> c = 125"

definition escapeLatex :: "jsstring \<Rightarrow> jsstring" where
  "escapeLatex text =
     js_replace_all (Chr 94) (\<lambda>m. 92 # lit ''textasciicircum{}'')
    (js_replace_all (Chr 126) (\<lambda>m. 92 # lit ''textasciitilde{}'')
    (js_replace_all (Cls special_char) (\<lambda>m. 92 # m_text m)
    (js_replace_all (Chr 92) (\<lambda>m. 92 # lit ''textbackslash{}'') text)))"

subsection \<open>convertToLatex\<close>

definition is_bullet :: "nat \<Rightarrow> bool" where
  "is_bullet c \<longleftrightarrow> c = 8226 \<or> c = 45 \<or> c = 42"

definition is_upper :: "nat \<Rightarrow> bool" where
  "is_upper c \<longleftrightarrow> 65 \<le> c \<and> c \<le> 90"

text \<open>\<^verbatim>\<open>/^[\<bullet>\-*]\s*/\<close>, the bullet being U+2022.\<close>

definition bulletRegex :: regex where
  "bulletRegex = Seq Bos (Seq (Cls is_bullet) (Star True is_ws))"

text \<open>
  \<^verbatim>\<open>trimmedLine[0]\<close> is \<^verbatim>\<open>undefined\<close> for the empty string, and \<^verbatim>\<open>test\<close> then reads
  the string \<^verbatim>\<open>"undefined"\<close>.
\<close>

definition charAt0 :: "jsstring \<Rightarrow> jsstring" where
  "charAt0 s = (case s of [] \<Rightarrow> lit ''undefined'' | c # cs \<Rightarrow> [c])"

definition convertLine :: "jsstring \<Rightarrow> jsstring" where
  "convertLine line =
     (let trimmedLine = trim line
      in if startsWith trimmedLine [8226] \<or> startsWith trimmedLine [45]
            \<or> startsWith trimmedLine [42]
         then (let bulletContent = js_replace bulletRegex (\<lambda>m. []) trimmedLine
               in lit ''  '' @ 92 # lit ''item '' @ escapeLatex bulletContent @ [10])
         else if length trimmedLine < 100 \<and> test (Cls is_upper) (charAt0 trimmedLine)
         then 92 # lit ''subsection{'' @ escapeLatex trimmedLine @ lit ''}'' @ [10]
         else escapeLatex trimmedLine @ [92, 92, 10])"

definition convertToLatex :: "jsstring \<Rightarrow> jsstring" where
  "convertToLatex text =
     foldl (\<lambda>latex line. latex @ convertLine line) []
           (filter (\<lambda>line. line \<noteq> []) (split_on 10 text))"

subsection \<open>cleanTitle\<close>

definition is_letter :: "nat \<Rightarrow> bool" where
  "is_letter c \<longleftrightarrow> (65 \<le> c \<and> c \<le> 90) \<or> (97 \<le> c \<and> c \<le> 122)"

definition not_letter :: "nat \<Rightarrow> bool" where
  "not_letter c \<longleftrightarrow> \<not> is_letter c"

text \<open>\<^verbatim>\<open>[^a-zA-Z0-9\s]\<close>\<close>

definition not_alnum_ws :: "nat \<Rightarrow> bool" where
  "not_alnum_ws c \<longleftrightarrow> \<not> (is_letter c \<or> is_digit c \<or> is_ws c)"

text \<open>
  When \<^verbatim>\<open>toUpperCase\<close> and \<^verbatim>\<open>toLowerCase\<close> are called in \<^verbatim>\<open>cleanTitle\<close> and on its
  result, every character is an ASCII letter, a digit or a space: the two replacements
  and the split have removed the others. On these the Unicode case mappings are the ASCII ones.
\<close>

definition toUpperCase :: "jsstring \<Rightarrow> jsstring" where
  "toUpperCase s = map (\<lambda>c. if 97 \<le> c \<and> c \<le> 122 then c - 32 else c) s"

definition toLowerCase :: "jsstring \<Rightarrow> jsstring" where
  "toLowerCase s = map (\<lambda>c. if 65 \<le> c \<and> c \<le> 90 then c + 32 else c) s"

definition cleanTitle :: "jsstring \<Rightarrow> jsstring" where
  "cleanTitle t =
     join (lit '' '')
       (map (\<lambda>word. toUpperCase (take 1 word) @ toLowerCase (drop 1 word))
            (js_split (Plus is_ws)
               (trim (js_replace_all (Cls not_alnum_ws) (\<lambda>m. [])
                       (js_replace (Seq Bos (Plus not_letter)) (\<lambda>m. []) t)))))"

subsection \<open>createChunk\<close>

definition createChunk :: "jsstring \<Rightarrow> jsstring list \<Rightarrow> nat \<Rightarrow> chunk" where
  "createChunk t cont index =
     (let contentText = join [10] cont;
          latexContent = convertToLatex contentText
      in \<lparr>chunk_id = lit ''section-'' @ show_nat index,
          chunk_type = Section,
          title = cleanTitle t,
          content = contentText,
          rawLatex = 92 # lit ''section{'' @ t @ lit ''}'' @ [10, 10] @ latexContent,
          parentId = None,
          tags = Some [toLowerCase (cleanTitle t)],
          metadata = None\<rparr>)"

subsection \<open>parseTextToChunks\<close>

fun alts :: "regex list \<Rightarrow> regex" where
  "alts [] = Eps"
| "alts [r] = r"
| "alts (r # rs) = Alt r (alts rs)"

text \<open>A header pattern \<^verbatim>\<open>/^(A|B|C)/im\<close>.\<close>

definition header :: "string list \<Rightarrow> regex" where
  "header names = Seq Bol (Group 1 (alts (map (\<lambda>n. LitI (lit n)) names)))"

definition sectionPatterns :: "regex list" where
  "sectionPatterns =
     [header [''EXPERIENCE'', ''WORK EXPERIENCE'', ''PROFESSIONAL EXPERIENCE'', ''EMPLOYMENT''],
      header [''EDUCATION'', ''ACADEMIC BACKGROUND''],
      header [''SKILLS'', ''TECHNICAL SKILLS'', ''CORE COMPETENCIES''],
      header [''PROJECTS'', ''PERSONAL PROJECTS'', ''KEY PROJECTS''],
      header [''CERTIFICATIONS'', ''CERTIFICATES'', ''LICENSES''],
      header [''AWARDS'', ''ACHIEVEMENTS'', ''HONORS''],
      header [''SUMMARY'', ''PROFESSIONAL SUMMARY'', ''PROFILE''],
      header [''PUBLICATIONS'', ''RESEARCH''],
      header [''VOLUNTEER'', ''VOLUNTEER EXPERIENCE''],
      header [''LANGUAGES'', ''LANGUAGE SKILLS'']]"

text \<open>The variables of the loop over the lines.\<close>

record segmenter =
  currentSection :: "jsstring option"
  currentContent :: "jsstring list"
  chunkIndex :: nat
  chunks :: "chunk list"

text \<open>\<^verbatim>\<open>currentSection && currentContent.length > 0\<close>: a string is truthy when it is not empty.\<close>

definition sectionOpen :: "segmenter \<Rightarrow> bool" where
  "sectionOpen st = (case currentSection st of None \<Rightarrow> False | Some t \<Rightarrow> t \<noteq> [])"

definition pushChunk :: "segmenter \<Rightarrow> segmenter" where
  "pushChunk st =
     (case currentSection st of
        None \<Rightarrow> st
      | Some t \<Rightarrow>
          st\<lparr>chunks := chunks st @ [createChunk t (currentContent st) (chunkIndex st)],
             chunkIndex := chunkIndex st + 1\<rparr>)"

text \<open>
  The inner loop over the patterns, left at the first pattern that matches the line;
  the result says whether one did (\<^verbatim>\<open>isSection\<close>).
\<close>

fun patternLoop :: "regex list \<Rightarrow> jsstring \<Rightarrow> segmenter \<Rightarrow> bool \<times> segmenter" where
  "patternLoop [] line st = (False, st)"
| "patternLoop (pattern # ps) line st =
     (if test pattern line
      then (True,
            (if sectionOpen st \<and> currentContent st \<noteq> []
             then (pushChunk st)\<lparr>currentContent := []\<rparr>
             else st)\<lparr>currentSection := Some line\<rparr>)
      else patternLoop ps line st)"

definition lineStep :: "segmenter \<Rightarrow> jsstring \<Rightarrow> segmenter" where
  "lineStep st line =
     (case patternLoop sectionPatterns line st of
        (isSection, st') \<Rightarrow>
          if \<not> isSection \<and> sectionOpen st'
          then st'\<lparr>currentContent := currentContent st' @ [line]\<rparr>
          else st')"

definition parseTextToChunks :: "jsstring \<Rightarrow> chunk list" where
  "parseTextToChunks text =
     (let lines = filter (\<lambda>line. line \<noteq> []) (map trim (split_on 10 text));
          st = foldl lineStep
                 \<lparr>currentSection = None, currentContent = [], chunkIndex = 0, chunks = []\<rparr>
                 lines;
          st' = (if sectionOpen st \<and> currentContent st \<noteq> [] then pushChunk st else st)
      in if chunks st' = []
         then [\<lparr>chunk_id = lit ''section-0'',
                chunk_type = Section,
                title = lit ''Resume Content'',
                content = text,
                rawLatex = 92 # lit ''section{Resume Content}'' @ [10, 10] @ text,
                parentId = None,
                tags = Some [lit ''imported''],
                metadata = None\<rparr>]
         else chunks st')"

section \<open>The editor (ResumeEditor.tsx)\<close>

text \<open>The state of the editor is the list \<^verbatim>\<open>chunks\<close>; the two lists shown are computed from it.\<close>

definition shownActive :: "ResumeChunk list \<Rightarrow> ResumeChunk list" where
  "shownActive cs = sort_key order (filter (\<lambda>c. isActive c) cs)"

definition shownStandby :: "ResumeChunk list \<Rightarrow> ResumeChunk list" where
  "shownStandby cs = sort_key order (filter (\<lambda>c. \<not> isActive c) cs)"

definition toggleChunkActive :: "jsstring \<Rightarrow> ResumeChunk list \<Rightarrow> ResumeChunk list" where
  "toggleChunkActive i prev =
     map (\<lambda>chunk. if chunk_id chunk = i then chunk\<lparr>isActive := \<not> isActive chunk\<rparr> else chunk) prev"

definition deleteChunk :: "jsstring \<Rightarrow> ResumeChunk list \<Rightarrow> ResumeChunk list" where
  "deleteChunk i prev = filter (\<lambda>chunk. chunk_id chunk \<noteq> i) prev"

text \<open>\<^verbatim>\<open>findIndex\<close> gives -1 when no element satisfies the predicate.\<close>

fun findIndex :: "('a \<Rightarrow> bool) \<Rightarrow> 'a list \<Rightarrow> int" where
  "findIndex P [] = - 1"
| "findIndex P (x # xs) =
     (if P x then 0 else (let r = findIndex P xs in if r < 0 then - 1 else r + 1))"

text \<open>
  \<^verbatim>\<open>arrayMove\<close> is a function of the library @dnd-kit/sortable, outside the repository:
  \<^verbatim>\<open>newArray.splice(to < 0 ? newArray.length + to : to, 0, newArray.splice(from, 1)[0])\<close>
  on a copy of the array. \<^verbatim>\<open>splice\<close> counts a negative start from the end and clamps it
  to the array; the element it inserts is \<^verbatim>\<open>undefined\<close>, here \<open>None\<close>, when the inner
  \<^verbatim>\<open>splice\<close> removed nothing.
\<close>

definition spliceStart :: "nat \<Rightarrow> int \<Rightarrow> nat" where
  "spliceStart len start =
     (if start < 0 then nat (max (int len + start) 0) else min (nat start) len)"

definition arrayMove :: "'a list \<Rightarrow> int \<Rightarrow> int \<Rightarrow> 'a option list" where
  "arrayMove array from to =
     (let newArray = map Some array;
          target = (if to < 0 then int (length newArray) + to else to);
          f = spliceStart (length newArray) from;
          removed = (case drop f newArray of [] \<Rightarrow> None | x # xs \<Rightarrow> x);
          newArray' = take f newArray @ drop (f + 1) newArray;
          t = spliceStart (length newArray') target
      in take t newArray' @ [removed] @ drop t newArray')"

text \<open>
  \<^verbatim>\<open>reordered.find((r) => r.id === chunk.id)\<close> followed by \<^verbatim>\<open>reordered.indexOf\<close> of
  what it found: the index of the first element with that id. Reading \<^verbatim>\<open>id\<close> of an
  element that is \<^verbatim>\<open>undefined\<close> raises a TypeError.
\<close>

fun indexOfId :: "jsstring \<Rightarrow> ResumeChunk option list \<Rightarrow> failure + nat option" where
  "indexOfId i [] = Inr None"
| "indexOfId i (None # rs) = Inl TypeError"
| "indexOfId i (Some r # rs) =
     (if chunk_id r = i then Inr (Some 0)
      else (case indexOfId i rs of Inl e \<Rightarrow> Inl e | Inr n \<Rightarrow> Inr (map_option Suc n)))"

fun mapE :: "('a \<Rightarrow> failure + 'b) \<Rightarrow> 'a list \<Rightarrow> failure + 'b list" where
  "mapE f [] = Inr []"
| "mapE f (x # xs) =
     (case f x of
        Inl e \<Rightarrow> Inl e
      | Inr y \<Rightarrow> (case mapE f xs of Inl e \<Rightarrow> Inl e | Inr ys \<Rightarrow> Inr (y # ys)))"

text \<open>
  \<^verbatim>\<open>handleDragEnd\<close>: \<open>activeId\<close> is \<^verbatim>\<open>active.id\<close>, and \<open>over\<close> is \<^verbatim>\<open>over.id\<close>, or \<open>None\<close>
  when the chunk was dropped over nothing. The result is the new state.
\<close>

definition handleDragEnd :: "ResumeChunk list \<Rightarrow> jsstring \<Rightarrow> jsstring option
                             \<Rightarrow> failure + ResumeChunk list" where
  "handleDragEnd cs activeId over =
     (case over of
        None \<Rightarrow> Inr cs
      | Some overId \<Rightarrow>
          if activeId = overId then Inr cs
          else (case (find (\<lambda>c. chunk_id c = activeId) cs, find (\<lambda>c. chunk_id c = overId) cs) of
                  (Some activeChunk, Some overChunk) \<Rightarrow>
                    if isActive activeChunk = isActive overChunk
                    then (let items = (if isActive activeChunk then shownActive cs
                                       else shownStandby cs);
                              oldIndex = findIndex (\<lambda>c. chunk_id c = activeId) items;
                              newIndex = findIndex (\<lambda>c. chunk_id c = overId) items;
                              reordered = arrayMove items oldIndex newIndex
                          in mapE (\<lambda>chunk.
                                     case indexOfId (chunk_id chunk) reordered of
                                       Inl e \<Rightarrow> Inl e
                                     | Inr None \<Rightarrow> Inr chunk
                                     | Inr (Some n) \<Rightarrow> Inr (chunk\<lparr>order := int n\<rparr>))
                                  cs)
                    else Inr cs
                | _ \<Rightarrow> Inr cs))"

section \<open>The editor: activation and reordering\<close>

text \<open>
  Claim C8 (toggle involution). The editor has one operation on the flag,
  \<^verbatim>\<open>toggleChunkActive\<close>, which flips it. Toggling a chunk twice gives back the state as it
  was, so every \<open>isActive\<close> flag has its original value, and a toggle changes no
  \<open>order\<close> field.
\<close>

theorem toggle_involution:
  "toggleChunkActive i (toggleChunkActive i cs) = cs
   \<and> map isActive (toggleChunkActive i (toggleChunkActive i cs)) = map isActive cs
   \<and> map order (toggleChunkActive i cs) = map order cs
   \<and> map order (toggleChunkActive i (toggleChunkActive i cs)) = map order cs"
proof -
  have twice: "toggleChunkActive i (toggleChunkActive i cs) = cs"
    by (induction cs) (simp_all add: toggleChunkActive_def)
  have once: "map order (toggleChunkActive i xs) = map order xs" for xs
    by (induction xs) (simp_all add: toggleChunkActive_def)
  from twice once show ?thesis by simp
qed

subsection \<open>Reordering\<close>

lemma findIndex_found:
  "x \<in> set xs \<Longrightarrow> P x \<Longrightarrow> 0 \<le> findIndex P xs \<and> nat (findIndex P xs) < length xs"
proof (induction xs)
  case Nil
  then show ?case by simp
next
  case (Cons y ys)
  show ?case
  proof (cases "P y")
    case True
    then show ?thesis by simp
  next
    case False
    with Cons.prems have "x \<in> set ys" by auto
    from Cons.IH[OF this Cons.prems(2)] False show ?thesis
      by (simp add: Let_def nat_add_distrib)
  qed
qed

lemma arrayMove_elements:
  assumes "0 \<le> from" and "nat from < length xs"
  shows "\<exists>ys. arrayMove xs from to = map Some ys \<and> set ys \<subseteq> set xs"
proof -
  define f where "f = spliceStart (length (map Some xs)) from"
  have f: "f = nat from" "f < length xs"
    using assms by (simp_all add: f_def spliceStart_def)
  define rest where "rest = take f xs @ drop (f + 1) xs"
  define t where "t = spliceStart (length (map Some rest))
                        (if to < 0 then int (length (map Some xs)) + to else to)"
  have removed: "(case drop f (map Some xs) of [] \<Rightarrow> None | x # xs \<Rightarrow> x) = Some (xs ! f)"
    using f(2) by (simp add: drop_map Cons_nth_drop_Suc[symmetric])
  have "arrayMove xs from to = map Some (take t rest @ [xs ! f] @ drop t rest)"
    unfolding arrayMove_def Let_def
    by (simp only: f_def[symmetric] removed)
       (simp add: rest_def t_def take_map drop_map)
  moreover have "set (take t rest @ [xs ! f] @ drop t rest) \<subseteq> set xs"
    using f(2) set_take_subset[of t rest] set_drop_subset[of t rest]
      set_take_subset[of f xs] set_drop_subset[of "f + 1" xs]
    by (auto simp: rest_def)
  ultimately show ?thesis by blast
qed

lemma indexOfId_Some_list:
  "\<exists>n. indexOfId i (map Some ys) = Inr n \<and> (i \<notin> chunk_id ` set ys \<longrightarrow> n = None)"
  by (induction ys) auto

lemma mapE_all_Inr:
  "\<forall>x \<in> set xs. \<exists>y. f x = Inr y \<Longrightarrow>
   \<exists>ys. mapE f xs = Inr ys \<and> length ys = length xs \<and> (\<forall>i < length xs. f (xs ! i) = Inr (ys ! i))"
proof (induction xs)
  case Nil
  then show ?case by simp
next
  case (Cons x xs)
  then obtain y where y: "f x = Inr y" by auto
  from Cons obtain ys where ys: "mapE f xs = Inr ys" "length ys = length xs"
    "\<forall>i < length xs. f (xs ! i) = Inr (ys ! i)"
    by auto
  have "\<forall>i < length (x # xs). f ((x # xs) ! i) = Inr ((y # ys) ! i)"
    using y ys(3) by (auto simp: nth_Cons split: nat.splits)
  with y ys(1,2) show ?case by (intro exI[of _ "y # ys"]) simp
qed

lemma find_Some_set: "find P xs = Some x \<Longrightarrow> x \<in> set xs \<and> P x"
  by (induction xs) (auto split: if_splits)

text \<open>
  Claim C9 (ordering stability under reorder). In a registry whose chunk ids are unique
  (the invariant of the data model), dragging a chunk over another one returns a new
  state in which every chunk of the other partition (the chunks whose \<open>isActive\<close> differs
  from the dragged chunk's) is the chunk it was, with its \<open>order\<close>, its \<open>isActive\<close> and
  every other field.
\<close>

theorem reorder_keeps_other_partition:
  assumes "distinct (map chunk_id cs)"
    and "find (\<lambda>c. chunk_id c = activeId) cs = Some activeChunk"
  shows "\<exists>cs'. handleDragEnd cs activeId over = Inr cs' \<and> length cs' = length cs
           \<and> (\<forall>i < length cs. isActive (cs ! i) \<noteq> isActive activeChunk \<longrightarrow> cs' ! i = cs ! i)"
proof -
  have same: ?thesis if "handleDragEnd cs activeId over = Inr cs"
    using that by simp
  show ?thesis
  proof (cases over)
    case None
    then show ?thesis by (intro same) (simp add: handleDragEnd_def)
  next
    case (Some overId)
    show ?thesis
    proof (cases "activeId = overId")
      case True
      with Some show ?thesis by (intro same) (simp add: handleDragEnd_def)
    next
      case ne: False
      show ?thesis
      proof (cases "find (\<lambda>c. chunk_id c = overId) cs")
        case None
        with Some ne assms(2) show ?thesis by (intro same) (simp add: handleDragEnd_def)
      next
        case over: (Some overChunk)
        show ?thesis
        proof (cases "isActive activeChunk = isActive overChunk")
          case False
          with Some ne assms(2) over show ?thesis
            by (intro same) (simp add: handleDragEnd_def)
        next
          case True
          define items where
            "items = (if isActive activeChunk then shownActive cs else shownStandby cs)"
          define reordered where
            "reordered = arrayMove items (findIndex (\<lambda>c. chunk_id c = activeId) items)
                           (findIndex (\<lambda>c. chunk_id c = overId) items)"
          define step :: "ResumeChunk \<Rightarrow> failure + ResumeChunk" where
            "step = (\<lambda>chunk. case indexOfId (chunk_id chunk) reordered of
                               Inl e \<Rightarrow> Inl e
                             | Inr None \<Rightarrow> Inr chunk
                             | Inr (Some n) \<Rightarrow> Inr (chunk\<lparr>order := int n\<rparr>))"
          have run: "handleDragEnd cs activeId over = mapE step cs"
            using Some ne assms(2) over True
            by (simp add: handleDragEnd_def items_def reordered_def step_def Let_def)
          have items: "set items = {c \<in> set cs. isActive c = isActive activeChunk}"
            by (auto simp: items_def shownActive_def shownStandby_def)
          from find_Some_set[OF assms(2)] items
          have "activeChunk \<in> set items" "chunk_id activeChunk = activeId" by auto
          from findIndex_found[of activeChunk items "\<lambda>c. chunk_id c = activeId", OF this]
          obtain ys where ys: "reordered = map Some ys" "set ys \<subseteq> set items"
            using arrayMove_elements[of "findIndex (\<lambda>c. chunk_id c = activeId) items" items]
            unfolding reordered_def by blast
          have inr: "\<exists>y. step c = Inr y" for c
            using indexOfId_Some_list[of "chunk_id c" ys]
            by (auto simp: step_def ys(1) split: option.splits)
          have other: "step c = Inr c"
            if c: "c \<in> set cs" "isActive c \<noteq> isActive activeChunk" for c
          proof -
            have "chunk_id c \<notin> chunk_id ` set ys"
            proof
              assume "chunk_id c \<in> chunk_id ` set ys"
              then obtain y where y: "y \<in> set ys" "chunk_id y = chunk_id c" by auto
              with ys(2) items have "y \<in> set cs" "isActive y = isActive activeChunk" by auto
              with c(1) y(2) assms(1) have "y = c"
                by (meson distinct_map inj_onD)
              with c(2) \<open>isActive y = isActive activeChunk\<close> show False by simp
            qed
            with indexOfId_Some_list[of "chunk_id c" ys] show ?thesis
              by (auto simp: step_def ys(1))
          qed
          from mapE_all_Inr[of cs step] inr obtain cs' where cs':
            "mapE step cs = Inr cs'" "length cs' = length cs"
            "\<forall>i < length cs. step (cs ! i) = Inr (cs' ! i)"
            by blast
          have "cs' ! i = cs ! i"
            if "i < length cs" "isActive (cs ! i) \<noteq> isActive activeChunk" for i
            using cs'(3) other[of "cs ! i"] that by auto
          with cs'(1,2) run show ?thesis by auto
        qed
      qed
    qed
  qed
qed

text \<open>
  A registry for the examples: section chunks with the ids, the order and the flags of
  the editor's initial state.
\<close>

definition plainChunk :: "string \<Rightarrow> int \<Rightarrow> bool \<Rightarrow> ResumeChunk" where
  "plainChunk i n a =
     chunk.extend
       \<lparr>chunk_id = lit i, chunk_type = Section, title = [], content = [], rawLatex = [],
        parentId = None, tags = None, metadata = None\<rparr>
       \<lparr>order = n, isActive = a\<rparr>"

definition registry :: "ResumeChunk list" where
  "registry = [plainChunk ''1'' 0 True, plainChunk ''2'' 1 True, plainChunk ''3'' 2 True,
               plainChunk ''4'' 3 False, plainChunk ''5'' 4 False]"

theorem reorder_keeps_other_partition_witness:
  "\<exists>cs'. handleDragEnd registry (lit ''1'') (Some (lit ''3'')) = Inr cs'
         \<and> length cs' = 5 \<and> cs' ! 3 = plainChunk ''4'' 3 False \<and> cs' ! 4 = plainChunk ''5'' 4 False"
proof -
  have d: "distinct (map chunk_id registry)"
    by (simp add: registry_def plainChunk_def lit_def chunk.defs)
  have f: "find (\<lambda>c. chunk_id c = lit ''1'') registry = Some (plainChunk ''1'' 0 True)"
    by (simp add: registry_def plainChunk_def lit_def chunk.defs)
  from reorder_keeps_other_partition[OF d f, of "Some (lit ''3'')"] obtain cs' where
    cs': "handleDragEnd registry (lit ''1'') (Some (lit ''3'')) = Inr cs'"
    "length cs' = length registry"
    "\<forall>i < length registry. isActive (registry ! i) \<noteq> isActive (plainChunk ''1'' 0 True)
       \<longrightarrow> cs' ! i = registry ! i"
    by blast
  have "cs' ! 3 = registry ! 3" "cs' ! 4 = registry ! 4"
    using cs'(3) by (simp_all add: registry_def plainChunk_def chunk.defs)
  with cs'(1,2) show ?thesis
    by (intro exI[of _ cs']) (simp add: registry_def)
qed

section \<open>The heuristic segmenter without headers\<close>

lemma patternLoop_no_match:
  "\<forall>p \<in> set ps. \<not> test p line \<Longrightarrow> patternLoop ps line st = (False, st)"
  by (induction ps) simp_all

lemma lineStep_no_header:
  "\<forall>p \<in> set sectionPatterns. \<not> test p line \<Longrightarrow> \<not> sectionOpen st \<Longrightarrow> lineStep st line = st"
  by (simp add: lineStep_def patternLoop_no_match)

lemma foldl_lineStep_no_header:
  "\<forall>line \<in> set ls. \<forall>p \<in> set sectionPatterns. \<not> test p line \<Longrightarrow> \<not> sectionOpen st \<Longrightarrow>
   foldl lineStep st ls = st"
  by (induction ls) (simp_all add: lineStep_no_header)

text \<open>
  Claim C6 (header-less fallback). The segmenter tests the trimmed, non-empty lines of
  the text. When none of them matches any of the ten header patterns, the result is the
  single section chunk \<^verbatim>\<open>section-0\<close>, titled ``Resume Content'', tagged \<^verbatim>\<open>imported\<close>,
  whose content is the whole text as it was given.
\<close>

theorem headerless_fallback:
  assumes "\<forall>line \<in> set (filter (\<lambda>line. line \<noteq> []) (map trim (split_on 10 text))).
             \<forall>p \<in> set sectionPatterns. \<not> test p line"
  shows "parseTextToChunks text =
           [\<lparr>chunk_id = lit ''section-0'',
             chunk_type = Section,
             title = lit ''Resume Content'',
             content = text,
             rawLatex = 92 # lit ''section{Resume Content}'' @ [10, 10] @ text,
             parentId = None,
             tags = Some [lit ''imported''],
             metadata = None\<rparr>]"
proof -
  define st0 where
    "st0 = \<lparr>currentSection = None, currentContent = [], chunkIndex = 0, chunks = []\<rparr>"
  have closed: "\<not> sectionOpen st0" by (simp add: st0_def sectionOpen_def)
  have "foldl lineStep st0 (filter (\<lambda>line. line \<noteq> []) (map trim (split_on 10 text))) = st0"
    using assms closed by (rule foldl_lineStep_no_header)
  then show ?thesis
    using closed unfolding parseTextToChunks_def Let_def st0_def[symmetric]
    by (simp add: st0_def)
qed

section \<open>The structural parser: items, ids and failures\<close>

lemmas class_defs = any_char_def dot_char_def not_rbrace_def is_digit_def is_ws_def
  is_line_terminator_def canonicalize_def special_char_def is_bullet_def is_upper_def
  is_letter_def not_letter_def not_alnum_ws_def

lemmas regex_defs = Chr_def Plus_def Opt_def header_def braced_def

lemmas exec_defs = exec_def match_def test_def scan.simps grp_def slice_def prev_at_def

lemmas pattern_defs = preambleRegex_def bodyRegex_def docClassRegex_def packageRegex_def
  sectionRegex_def subsectionPattern_def itemPattern_def cventryPattern_def patterns_def
  dateRegex_def companyRegex_def bulletRegex_def sectionPatterns_def

text \<open>The chunks that \<^verbatim>\<open>parseItems\<close> builds from a list of matches, numbered from \<open>k\<close>.\<close>

fun itemsFrom :: "jsstring \<Rightarrow> nat \<Rightarrow> jsmatch list \<Rightarrow> chunk list" where
  "itemsFrom parent k [] = []"
| "itemsFrom parent k (m # mts) = itemChunk parent k m # itemsFrom parent (k + 1) mts"

lemma itemsFrom_append:
  "itemsFrom parent k (xs @ ys) = itemsFrom parent k xs @ itemsFrom parent (k + length xs) ys"
  by (induction xs arbitrary: k) simp_all

lemma length_itemsFrom: "length (itemsFrom parent k mts) = length mts"
  by (induction mts arbitrary: k) simp_all

lemma itemsFrom_ids:
  "map chunk_id (itemsFrom parent k mts) =
   map (\<lambda>j. parent @ lit ''-item-'' @ show_nat j) [k..<k + length mts]"
proof (induction mts arbitrary: k)
  case Nil
  then show ?case by simp
next
  case (Cons m mts)
  have "[k..<k + length (m # mts)] = k # [k + 1..<k + 1 + length mts]"
    using upt_conv_Cons[of k "k + length (m # mts)"] by simp
  then show ?case using Cons.IH[of "k + 1"] by (simp add: itemChunk_def Let_def del: upt_Suc)
qed

lemma itemsFrom_raw: "map rawLatex (itemsFrom parent k mts) = map m_text mts"
  by (induction mts arbitrary: k) (simp_all add: itemChunk_def Let_def)

lemma itemsFrom_elem:
  "it \<in> set (itemsFrom parent k mts) \<Longrightarrow> \<exists>j m. m \<in> set mts \<and> it = itemChunk parent j m"
proof (induction mts arbitrary: k)
  case Nil
  then show ?case by simp
next
  case (Cons a mts)
  show ?case
  proof (cases "it = itemChunk parent k a")
    case True
    then show ?thesis by (intro exI[of _ k] exI[of _ a]) simp
  next
    case False
    with Cons.prems have "it \<in> set (itemsFrom parent (k + 1) mts)" by simp
    from Cons.IH[OF this] obtain j m where "m \<in> set mts" "it = itemChunk parent j m" by blast
    then show ?thesis by (intro exI[of _ j] exI[of _ m]) simp
  qed
qed

text \<open>A pattern that cannot match the empty string: the loop ends, with the matches of \<open>matchAll\<close>.\<close>

lemma itemLoop_matchAll:
  "0 < minlen pattern \<Longrightarrow>
   itemLoop pattern cont parent lastIndex itemIndex items =
     Inr (itemIndex + length (matchAll pattern cont lastIndex),
          items @ itemsFrom parent itemIndex (matchAll pattern cont lastIndex))"
proof (induction pattern cont parent lastIndex itemIndex items rule: itemLoop.induct)
  case (1 pattern cont parent lastIndex itemIndex items)
  show ?case
  proof (cases "exec pattern cont lastIndex")
    case None
    then show ?thesis
      by (simp add: itemLoop.simps[of pattern cont parent lastIndex]
                    matchAll.simps[of pattern cont lastIndex])
  next
    case (Some m)
    from exec_props(2)[OF Some] "1.prems" have ne: "m_lastIndex m \<noteq> m_index m" by simp
    from "1.IH"[OF Some ne "1.prems"] Some ne show ?thesis
      by (simp add: itemLoop.simps[of pattern cont parent lastIndex]
                    matchAll.simps[of pattern cont lastIndex])
  qed
qed

lemma forEachPattern_matchAll:
  "\<forall>p \<in> set ps. 0 < minlen p \<Longrightarrow>
   forEachPattern ps cont parent itemIndex items =
     Inr (itemIndex + length (concat (map (\<lambda>p. matchAll p cont 0) ps)),
          items @ itemsFrom parent itemIndex (concat (map (\<lambda>p. matchAll p cont 0) ps)))"
  by (induction ps arbitrary: itemIndex items)
     (simp_all add: itemLoop_matchAll itemsFrom_append add.assoc)

lemma patterns_minlen: "\<forall>p \<in> set patterns. 0 < minlen p"
  by (simp add: pattern_defs regex_defs)

lemma parseItems_matchAll:
  "parseItems cont parent =
     Inr (itemsFrom parent 0 (matchAll subsectionPattern cont 0 @ matchAll itemPattern cont 0
                               @ matchAll cventryPattern cont 0))"
  using forEachPattern_matchAll[OF patterns_minlen, of cont parent 0 "[]"]
  by (simp add: parseItems_def patterns_def)

text \<open>
  Claim C4 (item ids and family order). For every content and parent id,
  \<^verbatim>\<open>parseItems\<close> returns a list of items whose ids are the parent id followed by
  \<^verbatim>\<open>-item-\<close> and 0, 1, 2, ... in list order, one numbering for the three families, and
  whose texts are all the matches of the subsection pattern, then all the matches of the
  list-item pattern, then all the matches of the six-field entry pattern, each family in
  the order \<^verbatim>\<open>exec\<close> finds its matches.
\<close>

theorem item_ids_family_order:
  "\<exists>items. parseItems cont parent = Inr items
     \<and> map chunk_id items = map (\<lambda>k. parent @ lit ''-item-'' @ show_nat k) [0..<length items]
     \<and> map rawLatex items =
         map m_text (matchAll subsectionPattern cont 0) @ map m_text (matchAll itemPattern cont 0)
         @ map m_text (matchAll cventryPattern cont 0)"
  using itemsFrom_ids[of parent 0] itemsFrom_raw[of parent 0]
  by (simp add: parseItems_matchAll length_itemsFrom)

text \<open>
  Claim C10 (item metadata and title). In the metadata of every item that
  \<^verbatim>\<open>parseItems\<close> returns, \<open>position\<close> and \<open>location\<close> are absent; the item comes from a
  match of one of the three patterns, and its title is the first group of that match, or
  ``Item'' when the group is absent or empty.
\<close>

theorem item_title_from_match:
  "\<exists>items. parseItems cont parent = Inr items
     \<and> (\<forall>it \<in> set items.
           (\<exists>md. metadata it = Some md \<and> position md = None \<and> location md = None)
           \<and> (\<exists>p \<in> set patterns. \<exists>m \<in> set (matchAll p cont 0).
                 rawLatex it = m_text m
                 \<and> title it = (case grp m 1 of
                                 None \<Rightarrow> lit ''Item''
                               | Some g \<Rightarrow> if g = [] then lit ''Item'' else g)))"
proof -
  let ?mts = "matchAll subsectionPattern cont 0 @ matchAll itemPattern cont 0
             @ matchAll cventryPattern cont 0"
  have "(\<exists>md. metadata it = Some md \<and> position md = None \<and> location md = None)
        \<and> (\<exists>p \<in> set patterns. \<exists>m \<in> set (matchAll p cont 0).
              rawLatex it = m_text m
              \<and> title it = (case grp m 1 of
                              None \<Rightarrow> lit ''Item''
                            | Some g \<Rightarrow> if g = [] then lit ''Item'' else g))"
    if "it \<in> set (itemsFrom parent 0 ?mts)" for it
  proof -
    from itemsFrom_elem[OF that] obtain j m where
      m: "m \<in> set ?mts" and it: "it = itemChunk parent j m"
      by blast
    from m obtain p where p: "p \<in> set patterns" "m \<in> set (matchAll p cont 0)"
      by (auto simp: patterns_def)
    have md: "position (extractMetadata (m_text m)) = None"
      "location (extractMetadata (m_text m)) = None"
      by (simp_all add: extractMetadata_def Let_def)
    have t: "title (itemChunk parent j m) =
               (case grp m 1 of None \<Rightarrow> lit ''Item'' | Some g \<Rightarrow> if g = [] then lit ''Item'' else g)"
      using md(1)
      by (simp add: itemChunk_def Let_def js_or_def or_default_def split: option.splits)
    have r: "rawLatex (itemChunk parent j m) = m_text m"
      "metadata (itemChunk parent j m) = Some (extractMetadata (m_text m))"
      by (simp_all add: itemChunk_def Let_def)
    show ?thesis
      unfolding it
    proof (intro conjI)
      show "\<exists>md. metadata (itemChunk parent j m) = Some md \<and> position md = None
                 \<and> location md = None"
        using r(2) md by blast
      show "\<exists>p \<in> set patterns. \<exists>m' \<in> set (matchAll p cont 0).
              rawLatex (itemChunk parent j m) = m_text m'
              \<and> title (itemChunk parent j m) =
                  (case grp m' 1 of
                     None \<Rightarrow> lit ''Item''
                   | Some g \<Rightarrow> if g = [] then lit ''Item'' else g)"
        using p t r(1) by blast
    qed
  qed
  then show ?thesis by (simp add: parseItems_matchAll)
qed

lemma itemsFrom_type: "it \<in> set (itemsFrom parent k mts) \<Longrightarrow> chunk_type it = Item"
  by (auto dest!: itemsFrom_elem simp: itemChunk_def Let_def)

text \<open>
  The loop of \<^verbatim>\<open>parseSections\<close> returns or raises a RangeError, and keeps this: the
  counter is the number of chunks emitted so far, a section chunk at position \<open>i\<close> of the
  list has the id \<^verbatim>\<open>section-i\<close>, and the list starts with a section chunk.
\<close>

definition numbered :: "chunk list \<Rightarrow> bool" where
  "numbered cs \<longleftrightarrow>
     (\<forall>i < length cs. chunk_type (cs ! i) = Section
                       \<longrightarrow> chunk_id (cs ! i) = lit ''section-'' @ show_nat i)
     \<and> (cs \<noteq> [] \<longrightarrow> chunk_type (cs ! 0) = Section)"

lemma numbered_step:
  assumes "numbered cs" and "chunk_type sec = Section"
    and "chunk_id sec = lit ''section-'' @ show_nat (length cs)"
    and "\<forall>it \<in> set items. chunk_type it = Item"
  shows "numbered (cs @ [sec] @ items)"
proof -
  have "chunk_id ((cs @ [sec] @ items) ! i) = lit ''section-'' @ show_nat i"
    if "i < length (cs @ [sec] @ items)" "chunk_type ((cs @ [sec] @ items) ! i) = Section" for i
  proof -
    consider "i < length cs" | "i = length cs" | "length cs < i" by linarith
    then show ?thesis
    proof cases
      case 1
      with that assms(1) show ?thesis by (simp add: numbered_def nth_append)
    next
      case 2
      with assms(3) show ?thesis by (simp add: nth_append)
    next
      case 3
      with that(1) have "(cs @ [sec] @ items) ! i = items ! (i - length cs - 1)"
        "i - length cs - 1 < length items"
        by (auto simp: nth_append nth_Cons')
      with that(2) assms(4) show ?thesis by (metis chunk_type.distinct(3) nth_mem)
    qed
  qed
  moreover have "chunk_type ((cs @ [sec] @ items) ! 0) = Section"
    using assms(1,2) by (cases cs) (simp_all add: numbered_def)
  ultimately show ?thesis by (simp add: numbered_def)
qed

lemma sectionRegex_props: "0 < minlen sectionRegex" "1 \<in> sure sectionRegex" "2 \<in> sure sectionRegex"
  by (simp_all add: pattern_defs regex_defs)

lemma sectionLoop_numbered:
  "length acc = globalIndex \<Longrightarrow> numbered acc \<Longrightarrow>
   (\<exists>out. sectionLoop lc maxArgs body lastIndex globalIndex acc = Inr out \<and> numbered out)
   \<or> sectionLoop lc maxArgs body lastIndex globalIndex acc = Inl RangeError"
proof (induction lc maxArgs body lastIndex globalIndex acc rule: sectionLoop.induct)
  case (1 lc maxArgs body lastIndex globalIndex acc)
  show ?case
  proof (cases "exec sectionRegex body lastIndex")
    case None
    with "1.prems" show ?thesis by (simp add: sectionLoop.simps[of lc maxArgs body lastIndex])
  next
    case (Some m)
    from exec_props(4)[OF Some sectionRegex_props(2)] obtain sectionTitle where
      g1: "grp m 1 = Some sectionTitle" by auto
    from exec_props(4)[OF Some sectionRegex_props(3)] obtain g2 where
      g2: "grp m 2 = Some g2" by auto
    from exec_props(2)[OF Some] sectionRegex_props(1) have ne: "m_lastIndex m \<noteq> m_index m"
      by simp
    define sectionId where "sectionId = lit ''section-'' @ show_nat globalIndex"
    define sec where
      "sec = \<lparr>chunk_id = sectionId, chunk_type = Section, title = sectionTitle,
              content = trim g2, rawLatex = m_text m, parentId = None,
              tags = Some [lc sectionTitle], metadata = None\<rparr>"
    define items where
      "items = itemsFrom sectionId 0
                 (matchAll subsectionPattern (trim g2) 0 @ matchAll itemPattern (trim g2) 0
                  @ matchAll cventryPattern (trim g2) 0)"
    have items: "parseItems (trim g2) sectionId = Inr items"
      by (simp add: items_def parseItems_matchAll)
    have n: "numbered (acc @ [sec] @ items)"
      using "1.prems" itemsFrom_type
      by (intro numbered_step) (auto simp: sec_def sectionId_def items_def)
    have len: "length (acc @ [sec] @ items) = globalIndex + 1 + length items"
      using "1.prems"(1) by simp
    show ?thesis
    proof (cases "maxArgs < length items")
      case True
      with Some g1 g2 items show ?thesis
        by (simp add: sectionLoop.simps[of lc maxArgs body lastIndex] Let_def sec_def
              sectionId_def)
    next
      case False
      from "1.IH"[OF Some g2 g1 refl sectionId_def sec_def items False ne len n]
      show ?thesis
        using Some g1 g2 items ne False
        by (simp add: sectionLoop.simps[of lc maxArgs body lastIndex] Let_def sec_def
              sectionId_def)
    qed
  qed
qed

lemmas eval = class_defs regex_defs exec_defs pattern_defs lit_def trim_def Let_def
  show_nat.simps itemLoop.simps sectionLoop.simps matchAll.simps parseItems_def
  parseSections_def parseLatexFile_def activate_def extractMetadata_def itemChunk_def
  js_or_def or_default_def generateLatex_def chunk.defs

theorem item_ids_family_order_witness:
  "\<exists>items. parseItems (92 # lit ''item a'' @ 92 # lit ''subsection{S}'') (lit ''p'') = Inr items
     \<and> map chunk_id items = [lit ''p-item-0'', lit ''p-item-1'']
     \<and> map rawLatex items = [92 # lit ''subsection{S}'',
                               92 # lit ''item a'' @ 92 # lit ''subsection{S}'']"
proof -
  from item_ids_family_order[of "92 # lit ''item a'' @ 92 # lit ''subsection{S}''" "lit ''p''"]
  obtain items where
    items: "parseItems (92 # lit ''item a'' @ 92 # lit ''subsection{S}'') (lit ''p'') = Inr items"
      "map chunk_id items = map (\<lambda>k. lit ''p'' @ lit ''-item-'' @ show_nat k) [0..<length items]"
    by blast
  have "map rawLatex (projr (parseItems (92 # lit ''item a'' @ 92 # lit ''subsection{S}'') (lit ''p'')))
          = [92 # lit ''subsection{S}'', 92 # lit ''item a'' @ 92 # lit ''subsection{S}'']"
    by (simp add: eval)
  with items(1) have raw: "map rawLatex items =
      [92 # lit ''subsection{S}'', 92 # lit ''item a'' @ 92 # lit ''subsection{S}'']"
    by simp
  then have "length items = 2" by (metis length_map length_Cons list.size(3) numeral_2_eq_2)
  then have "[0..<length items] = [0, Suc 0]" by (simp add: numeral_2_eq_2)
  moreover have "map (\<lambda>k. lit ''p'' @ lit ''-item-'' @ show_nat k) [0, Suc 0]
                   = [lit ''p-item-0'', lit ''p-item-1'']"
    by (simp add: show_nat.simps lit_def)
  ultimately have "map chunk_id items = [lit ''p-item-0'', lit ''p-item-1'']"
    using items(2) by (simp only:)
  with items(1) raw show ?thesis by (intro exI[of _ items] conjI)
qed

theorem item_title_from_match_witness:
  "\<exists>items. parseItems (92 # lit ''cventry{}{a}{b}{c}{d}{e}'') (lit ''p'') = Inr items
     \<and> map title items = [lit ''Item'']
     \<and> map metadata items
         = [Some \<lparr>company = None, position = None, dates = None, location = None\<rparr>]"
proof -
  from item_title_from_match[of "92 # lit ''cventry{}{a}{b}{c}{d}{e}''" "lit ''p''"]
  obtain items where
    items: "parseItems (92 # lit ''cventry{}{a}{b}{c}{d}{e}'') (lit ''p'') = Inr items"
    by blast
  have "map (\<lambda>it. (title it, metadata it))
          (projr (parseItems (92 # lit ''cventry{}{a}{b}{c}{d}{e}'') (lit ''p'')))
        = [(lit ''Item'',
            Some \<lparr>company = None, position = None, dates = None, location = None\<rparr>)]"
    by (simp add: eval)
  with items show ?thesis by (intro exI[of _ items]) (auto simp: lit_def)
qed

lemma parseSections_numbered:
  "(\<exists>cs. parseSections lc maxArgs body = Inr cs \<and> numbered cs)
   \<or> parseSections lc maxArgs body = Inl RangeError"
proof -
  have "numbered []" by (simp add: numbered_def)
  from sectionLoop_numbered[of "[]" 0, OF _ this, of lc maxArgs body 0] show ?thesis
    by (simp add: parseSections_def)
qed

text \<open>
  Claim C5 (section ids), as amended. In every chunk list that \<^verbatim>\<open>parseSections\<close>
  returns, a section chunk at position \<open>i\<close> has the id \<^verbatim>\<open>section-i\<close>: the counter counts
  the chunks emitted so far in this call, sections and items alike, so it grows strictly
  from one section to the next; and the first chunk of every call is \<^verbatim>\<open>section-0\<close>,
  since the counter is a local variable that each call sets to 0.
\<close>

theorem section_ids_are_positions:
  assumes "parseSections lc maxArgs body = Inr cs"
  shows "(\<forall>i < length cs. chunk_type (cs ! i) = Section
                          \<longrightarrow> chunk_id (cs ! i) = lit ''section-'' @ show_nat i)
         \<and> (cs \<noteq> [] \<longrightarrow> chunk_id (cs ! 0) = lit ''section-0'')"
proof -
  from parseSections_numbered[of lc maxArgs body] assms have cs: "numbered cs"
    by auto
  have "lit ''section-'' @ show_nat 0 = lit ''section-0''"
    by (simp add: show_nat.simps lit_def)
  with cs have "cs \<noteq> [] \<longrightarrow> chunk_id (cs ! 0) = lit ''section-0''"
    by (auto simp: numbered_def)
  with cs show ?thesis by (auto simp: numbered_def)
qed

theorem section_ids_are_positions_witness:
  "\<exists>cs. parseSections toLowerCase 65535
           (92 # lit ''section{A}'' @ 92 # lit ''item x'' @ 92 # lit ''section{B}'') = Inr cs
     \<and> map chunk_type cs = [Section, Item, Section]
     \<and> chunk_id (cs ! 0) = lit ''section-0''
     \<and> chunk_id (cs ! 1) = lit ''section-0-item-0''
     \<and> chunk_id (cs ! 2) = lit ''section-2''"
proof -
  have "\<exists>cs. parseSections toLowerCase 65535
               (92 # lit ''section{A}'' @ 92 # lit ''item x'' @ 92 # lit ''section{B}'') = Inr cs
           \<and> map chunk_type cs = [Section, Item, Section]
           \<and> chunk_id (cs ! 1) = lit ''section-0-item-0''"
    by (simp add: eval)
  then obtain cs where
    all: "parseSections toLowerCase 65535
           (92 # lit ''section{A}'' @ 92 # lit ''item x'' @ 92 # lit ''section{B}'') = Inr cs
          \<and> map chunk_type cs = [Section, Item, Section]
          \<and> chunk_id (cs ! 1) = lit ''section-0-item-0''" ..
  from all have rest: "map chunk_type cs = [Section, Item, Section]
          \<and> chunk_id (cs ! 1) = lit ''section-0-item-0''" by (rule conjunct2)
  from all have cs1: "parseSections toLowerCase 65535
           (92 # lit ''section{A}'' @ 92 # lit ''item x'' @ 92 # lit ''section{B}'') = Inr cs"
    by (rule conjunct1)
  from rest have cs2: "map chunk_type cs = [Section, Item, Section]"
    by (rule conjunct1)
  from rest have cs3: "chunk_id (cs ! 1) = lit ''section-0-item-0''"
    by (rule conjunct2)
  note cs = cs1 cs2 cs3
  from cs(2) have len: "length cs = 3" and ty: "chunk_type (cs ! 0) = Section"
    "chunk_type (cs ! 2) = Section"
    by (auto simp: map_eq_Cons_conv)
  from section_ids_are_positions[OF cs(1)] have
    ids: "\<forall>i < length cs. chunk_type (cs ! i) = Section
                          \<longrightarrow> chunk_id (cs ! i) = lit ''section-'' @ show_nat i"
    by blast
  from ids len ty have "chunk_id (cs ! 0) = lit ''section-'' @ show_nat 0"
    "chunk_id (cs ! 2) = lit ''section-'' @ show_nat 2"
    by simp_all
  then have "chunk_id (cs ! 0) = lit ''section-0''" "chunk_id (cs ! 2) = lit ''section-2''"
    by (simp_all add: show_nat.simps lit_def)
  with cs show ?thesis by (intro exI[of _ cs] conjI)
qed

text \<open>
  Claim C5 as stated fails: the counter is not kept from one call to the next. Two
  invocations, one after the other, both number their first section 0.
\<close>

theorem section_counter_restarts:
  "\<forall>lc maxArgs. \<exists>first second.
     parseSections lc maxArgs (92 # lit ''section{A}'') = Inr [first]
     \<and> parseSections lc maxArgs (92 # lit ''section{B}'') = Inr [second]
     \<and> chunk_id first = lit ''section-0'' \<and> chunk_id second = lit ''section-0''"
  by (simp add: eval)

text \<open>
  On every input the structural parser returns a document or raises a RangeError: it
  raises no TypeError and none of its loops runs forever.
\<close>

lemma parse_returns_or_range_error:
  "(\<exists>d. parseLatexFile lc maxArgs cont = Inr d)
   \<or> parseLatexFile lc maxArgs cont = Inl RangeError"
proof -
  have g: "\<exists>t. (case match s r of
                  None \<Rightarrow> Inr []
                | Some m \<Rightarrow> (case grp m 1 of None \<Rightarrow> Inl TypeError | Some g \<Rightarrow> Inr (trim g)))
               = Inr t" if "1 \<in> sure r" for s r
  proof (cases "match s r")
    case None
    then show ?thesis by simp
  next
    case (Some m)
    with exec_props(4)[of r s 0 m 1] that show ?thesis by (auto simp: match_def)
  qed
  have "1 \<in> sure preambleRegex" "1 \<in> sure bodyRegex"
    by (simp_all add: pattern_defs regex_defs)
  from g[OF this(1), of cont] g[OF this(2), of cont] obtain pre body where
    pb: "(case match cont preambleRegex of
        None \<Rightarrow> Inr []
      | Some m \<Rightarrow> (case grp m 1 of None \<Rightarrow> Inl TypeError | Some g \<Rightarrow> Inr (trim g))) = Inr pre"
    "(case match cont bodyRegex of
        None \<Rightarrow> Inr []
      | Some m \<Rightarrow> (case grp m 1 of None \<Rightarrow> Inl TypeError | Some g \<Rightarrow> Inr (trim g))) = Inr body"
    by blast
  from parseSections_numbered[of lc maxArgs body] show ?thesis
  proof
    assume "\<exists>cs. parseSections lc maxArgs body = Inr cs \<and> numbered cs"
    then obtain cs where "parseSections lc maxArgs body = Inr cs" by blast
    with pb show ?thesis by (simp add: parseLatexFile_def Let_def)
  next
    assume "parseSections lc maxArgs body = Inl RangeError"
    with pb show ?thesis by (simp add: parseLatexFile_def Let_def)
  qed
qed

section \<open>Examples\<close>

lemmas segmenter_eval = parseTextToChunks_def lineStep_def sectionOpen_def pushChunk_def
  createChunk_def cleanTitle_def js_split_def splitLoop.simps js_replace_def js_replace_all_def
  toUpperCase_def toLowerCase_def convertToLatex_def convertLine_def startsWith_def charAt0_def
  escapeLatex_def

theorem headerless_fallback_witness:
  "parseTextToChunks (lit ''Jo Doe '' @ [10] @ lit ''a b'') =
     [\<lparr>chunk_id = lit ''section-0'',
       chunk_type = Section,
       title = lit ''Resume Content'',
       content = lit ''Jo Doe '' @ [10] @ lit ''a b'',
       rawLatex = 92 # lit ''section{Resume Content}'' @ [10, 10]
                  @ lit ''Jo Doe '' @ [10] @ lit ''a b'',
       parentId = None,
       tags = Some [lit ''imported''],
       metadata = None\<rparr>]"
proof -
  have "\<forall>line \<in> set (filter (\<lambda>line. line \<noteq> [])
                         (map trim (split_on 10 (lit ''Jo Doe '' @ [10] @ lit ''a b'')))).
          \<forall>p \<in> set sectionPatterns. \<not> test p line"
    by (simp add: eval)
  from headerless_fallback[OF this] show ?thesis by simp
qed

text \<open>
  Claim C3 (escaping) on the line that is a single backslash. \<^verbatim>\<open>escapeLatex\<close> replaces
  the backslash by the markup \<^verbatim>\<open>\textbackslash{}\<close>, and its next replacement then escapes
  the two braces of that markup: the result is \<^verbatim>\<open>\textbackslash\{\}\<close>. The markup written
  for a tilde keeps its braces. The last part is the raw text of the chunk that the
  segmenter builds from the header \<^verbatim>\<open>SKILLS\<close> followed by that line.
\<close>

theorem escape_backslash_braces:
  "escapeLatex [92] = 92 # lit ''textbackslash'' @ 92 # lit ''{'' @ 92 # lit ''}''
   \<and> escapeLatex [126] = 92 # lit ''textasciitilde{}''
   \<and> map rawLatex (parseTextToChunks (lit ''SKILLS'' @ [10, 92])) =
       [92 # lit ''section{SKILLS}'' @ [10, 10]
        @ 92 # lit ''textbackslash'' @ 92 # lit ''{'' @ 92 # lit ''}'' @ [92, 92, 10]]"
  by (simp add: eval segmenter_eval)

text \<open>
  Claim C2 (the example) as stated fails: the text has no \<^verbatim>\<open>\begin{document}\<close>, so the
  structural parser finds no body and returns no chunk.
\<close>

definition example_text :: jsstring where
  "example_text = 92 # lit ''section{Experience}'' @ 10 # 92 # lit ''item Led a team''"

theorem example_without_document_has_no_chunks:
  "\<forall>lc maxArgs. parseLatexFile lc maxArgs example_text =
          Inr \<lparr>preamble = [], activeChunks = [], standbyChunks = [],
               documentClass = Some (lit ''article''), packages = []\<rparr>"
  by (simp add: eval example_text_def)

text \<open>
  Claim C2, as amended: the structural parser applied to the example text between
  \<^verbatim>\<open>\begin{document}\<close> and \<^verbatim>\<open>\end{document}\<close> returns exactly two chunks, the section
  chunk \<^verbatim>\<open>section-0\<close> titled ``Experience'' and the item chunk \<^verbatim>\<open>section-0-item-0\<close> with
  parent \<^verbatim>\<open>section-0\<close> and the content \<^verbatim>\<open>\item Led a team\<close>, on every engine whose calls
  take at least one spread argument.
\<close>

theorem example_in_document_has_two_chunks:
  "1 \<le> maxArgs \<Longrightarrow>
   parseLatexFile lc maxArgs
     (92 # lit ''begin{document}'' @ example_text @ 92 # lit ''end{document}'') =
     Inr \<lparr>preamble = [],
          activeChunks =
            [\<lparr>chunk_id = lit ''section-0'',
              chunk_type = Section,
              title = lit ''Experience'',
              content = 92 # lit ''item Led a team'',
              rawLatex = 92 # lit ''section{Experience}'' @ 10 # 92 # lit ''item Led a team'',
              parentId = None,
              tags = Some [lc (lit ''Experience'')],
              metadata = None,
              order = 0,
              isActive = True\<rparr>,
             \<lparr>chunk_id = lit ''section-0-item-0'',
              chunk_type = Item,
              title = lit ''Led a team'',
              content = 92 # lit ''item Led a team'',
              rawLatex = 92 # lit ''item Led a team'',
              parentId = Some (lit ''section-0''),
              tags = None,
              metadata = Some \<lparr>company = None, position = None, dates = None,
                               location = None\<rparr>,
              order = 1,
              isActive = True\<rparr>],
          standbyChunks = [],
          documentClass = Some (lit ''article''),
          packages = []\<rparr>"
  by (simp add: eval example_text_def)

theorem example_in_document_has_two_chunks_witness:
  "parseLatexFile toLowerCase 65535
     (92 # lit ''begin{document}'' @ example_text @ 92 # lit ''end{document}'') =
     Inr \<lparr>preamble = [],
          activeChunks =
            [\<lparr>chunk_id = lit ''section-0'',
              chunk_type = Section,
              title = lit ''Experience'',
              content = 92 # lit ''item Led a team'',
              rawLatex = 92 # lit ''section{Experience}'' @ 10 # 92 # lit ''item Led a team'',
              parentId = None,
              tags = Some [toLowerCase (lit ''Experience'')],
              metadata = None,
              order = 0,
              isActive = True\<rparr>,
             \<lparr>chunk_id = lit ''section-0-item-0'',
              chunk_type = Item,
              title = lit ''Led a team'',
              content = 92 # lit ''item Led a team'',
              rawLatex = 92 # lit ''item Led a team'',
              parentId = Some (lit ''section-0''),
              tags = None,
              metadata = Some \<lparr>company = None, position = None, dates = None,
                               location = None\<rparr>,
              order = 1,
              isActive = True\<rparr>],
          standbyChunks = [],
          documentClass = Some (lit ''article''),
          packages = []\<rparr>"
proof -
  have "(1::nat) \<le> 65535" by simp
  from example_in_document_has_two_chunks[OF this, of toLowerCase] show ?thesis .
qed

text \<open>
  Claim C1 (round trip) as stated fails. The raw text of a section chunk runs to the
  next section, so it holds the text of its items, and the generator writes the section
  and then its items again, each after a line feed. Parsed again, the section's raw text
  has the items appended and the item is there twice. This is so on every engine whose
  calls take at least two spread arguments.
\<close>

definition small_document :: jsstring where
  "small_document =
     92 # lit ''begin{document}'' @ 92 # lit ''section{A}'' @ 92 # lit ''item b''
     @ 92 # lit ''end{document}''"

definition small_parsed :: "(jsstring \<Rightarrow> jsstring) \<Rightarrow> ResumeData" where
  "small_parsed lc =
     \<lparr>preamble = [],
      activeChunks =
        [\<lparr>chunk_id = lit ''section-0'', chunk_type = Section, title = lit ''A'',
          content = 92 # lit ''item b'',
          rawLatex = 92 # lit ''section{A}'' @ 92 # lit ''item b'',
          parentId = None, tags = Some [lc (lit ''A'')], metadata = None,
          order = 0, isActive = True\<rparr>,
         \<lparr>chunk_id = lit ''section-0-item-0'', chunk_type = Item, title = lit ''b'',
          content = 92 # lit ''item b'',
          rawLatex = 92 # lit ''item b'',
          parentId = Some (lit ''section-0''), tags = None,
          metadata = Some \<lparr>company = None, position = None, dates = None, location = None\<rparr>,
          order = 1, isActive = True\<rparr>],
      standbyChunks = [],
      documentClass = Some (lit ''article''),
      packages = []\<rparr>"

definition small_regenerated :: jsstring where
  "small_regenerated =
     [10, 10] @ 92 # lit ''begin{document}'' @ [10, 10]
     @ 92 # lit ''section{A}'' @ 92 # lit ''item b'' @ 10 # 92 # lit ''item b'' @ [10, 10]
     @ 92 # lit ''end{document}''"

lemma small_document_parsed:
  "1 \<le> maxArgs \<Longrightarrow> parseLatexFile lc maxArgs small_document = Inr (small_parsed lc)"
  by (simp add: eval small_document_def small_parsed_def)

lemma small_document_regenerated: "generateLatex (small_parsed lc) = small_regenerated"
  by (simp add: generateLatex_def small_parsed_def small_regenerated_def lit_def)

lemma small_document_reparsed:
  "2 \<le> maxArgs \<Longrightarrow>
   \<exists>d'. parseLatexFile lc maxArgs small_regenerated = Inr d'
      \<and> map rawLatex (activeChunks d')
          = [92 # lit ''section{A}'' @ 92 # lit ''item b'' @ 10 # 92 # lit ''item b'',
             92 # lit ''item b'' @ [10],
             92 # lit ''item b'']"
  by (simp add: eval small_regenerated_def)

theorem round_trip_changes_raw_text:
  assumes "2 \<le> maxArgs"
  shows "\<exists>d d'. parseLatexFile lc maxArgs small_document = Inr d
            \<and> parseLatexFile lc maxArgs (generateLatex d) = Inr d'
            \<and> map rawLatex (activeChunks d)
                = [92 # lit ''section{A}'' @ 92 # lit ''item b'', 92 # lit ''item b'']
            \<and> map rawLatex (activeChunks d')
                = [92 # lit ''section{A}'' @ 92 # lit ''item b'' @ 10 # 92 # lit ''item b'',
                   92 # lit ''item b'' @ [10],
                   92 # lit ''item b'']"
proof -
  from assms have "1 \<le> maxArgs" by simp
  note p = small_document_parsed[OF this, of lc]
  from small_document_reparsed[OF assms, of lc] obtain d' where
    both: "parseLatexFile lc maxArgs small_regenerated = Inr d'
      \<and> map rawLatex (activeChunks d')
          = [92 # lit ''section{A}'' @ 92 # lit ''item b'' @ 10 # 92 # lit ''item b'',
             92 # lit ''item b'' @ [10],
             92 # lit ''item b'']" ..
  from both have d1: "parseLatexFile lc maxArgs small_regenerated = Inr d'"
    by (rule conjunct1)
  from both have d2: "map rawLatex (activeChunks d')
          = [92 # lit ''section{A}'' @ 92 # lit ''item b'' @ 10 # 92 # lit ''item b'',
             92 # lit ''item b'' @ [10],
             92 # lit ''item b'']"
    by (rule conjunct2)
  note d' = d1 d2
  have "map rawLatex (activeChunks (small_parsed lc))
          = [92 # lit ''section{A}'' @ 92 # lit ''item b'', 92 # lit ''item b'']"
    by (simp add: small_parsed_def)
  with p d' small_document_regenerated[of lc] show ?thesis
    by (intro exI[of _ "small_parsed lc"] exI[of _ d']) simp
qed

theorem round_trip_changes_raw_text_witness:
  "\<exists>d d'. parseLatexFile toLowerCase 65535 small_document = Inr d
          \<and> parseLatexFile toLowerCase 65535 (generateLatex d) = Inr d'
          \<and> map rawLatex (activeChunks d)
              = [92 # lit ''section{A}'' @ 92 # lit ''item b'', 92 # lit ''item b'']
          \<and> map rawLatex (activeChunks d')
              = [92 # lit ''section{A}'' @ 92 # lit ''item b'' @ 10 # 92 # lit ''item b'',
                 92 # lit ''item b'' @ [10],
                 92 # lit ''item b'']"
proof -
  have "(2::nat) \<le> 65535" by simp
  from round_trip_changes_raw_text[OF this, of toLowerCase] show ?thesis .
qed

section \<open>A section with more items than a call takes\<close>

subsection \<open>What the matcher does on a literal and on a lazy star\<close>

definition lastc :: "nat option \<Rightarrow> jsstring \<Rightarrow> nat option" where
  "lastc p u = (if u = [] then p else Some (last u))"

lemma lastc_Nil [simp]: "lastc p [] = p"
  by (simp add: lastc_def)

lemma lastc_Cons [simp]: "lastc p (x # u) = lastc (Some x) u"
  by (simp add: lastc_def)

lemma lastc_take_Suc: "j < length xs \<Longrightarrow> lastc p (take (Suc j) xs) = Some (xs ! j)"
  by (simp add: lastc_def take_Suc_conv_app_nth)

lemma startsWith_Nil [simp]: "startsWith xs []"
  by (simp add: startsWith_def)

lemma startsWith_Nil_left [simp]: "startsWith [] w \<longleftrightarrow> w = []"
  by (auto simp: startsWith_def)

lemma startsWith_Cons [simp]: "startsWith (x # xs) (c # w) \<longleftrightarrow> x = c \<and> startsWith xs w"
  by (auto simp: startsWith_def)

lemma startsWith_iff: "startsWith xs w \<longleftrightarrow> (\<exists>v. xs = w @ v)"
proof
  assume "startsWith xs w"
  then have "xs = w @ drop (length w) xs"
    by (metis append_take_drop_id startsWith_def)
  then show "\<exists>v. xs = w @ v" ..
next
  assume "\<exists>v. xs = w @ v"
  then show "startsWith xs w" by (auto simp: startsWith_def)
qed

lemma startsWith_set: "startsWith xs w \<Longrightarrow> set w \<subseteq> set xs"
  by (auto simp: startsWith_iff)

lemma strip_id:
  "strip (\<lambda>c. c) w p xs =
     (if startsWith xs w then Some (lastc p w, drop (length w) xs) else None)"
  by (induction "\<lambda>c::nat. c" w p xs rule: strip.induct) auto

lemma any_char_True: "any_char c"
  by (simp add: any_char_def)

text \<open>A lazy star stops at the first length at which the rest of the pattern matches.\<close>

lemma lazy_star_first:
  assumes "j \<le> length xs"
    and "k (i + j, lastc p (take j xs), drop j xs, cs) = Some r"
    and "\<forall>j' < j. k (i + j', lastc p (take j' xs), drop j' xs, cs) = None"
  shows "star False any_char i p xs cs k = Some r"
  using assms
proof (induction j arbitrary: i p xs)
  case 0
  then show ?case by (cases xs) simp_all
next
  case (Suc j)
  then obtain x xs' where xs: "xs = x # xs'" by (cases xs) auto
  from Suc.prems(3) have k0: "k (i, p, xs, cs) = None" by (metis add_0_right drop0 lastc_Nil take0 zero_less_Suc)
  have "star False any_char (i + 1) (Some x) xs' cs k = Some r"
  proof (rule Suc.IH)
    show "j \<le> length xs'" using Suc.prems(1) xs by simp
    show "k (i + 1 + j, lastc (Some x) (take j xs'), drop j xs', cs) = Some r"
      using Suc.prems(2) xs by simp
    show "\<forall>j' < j. k (i + 1 + j', lastc (Some x) (take j' xs'), drop j' xs', cs) = None"
    proof (intro allI impI)
      fix j' assume "j' < j"
      then have "Suc j' < Suc j" by simp
      with Suc.prems(3) have "k (i + Suc j', lastc p (take (Suc j') xs), drop (Suc j') xs, cs) = None"
        by blast
      then show "k (i + 1 + j', lastc (Some x) (take j' xs'), drop j' xs', cs) = None"
        using xs by simp
    qed
  qed
  with k0 xs any_char_True[of x] show ?case by simp
qed

text \<open>An occurrence of a word cannot run over a character that the word does not have.\<close>

lemma startsWith_append_sep:
  assumes "c \<notin> set w" and "j \<le> length a"
  shows "startsWith (drop j (a @ c # b)) w \<longleftrightarrow> startsWith (drop j a) w"
proof -
  have d: "drop j (a @ c # b) = drop j a @ c # b" using assms(2) by simp
  show ?thesis
  proof (cases "length w \<le> length (drop j a)")
    case True
    then show ?thesis unfolding d by (simp add: startsWith_def)
  next
    case False
    then have short: "length (drop j a) < length w" by simp
    have "\<not> startsWith (drop j a) w"
      using short by (auto simp: startsWith_def)
    moreover have "\<not> startsWith (drop j a @ c # b) w"
    proof
      assume "startsWith (drop j a @ c # b) w"
      then obtain v where "drop j a @ c # b = w @ v" by (auto simp: startsWith_iff)
      with short have "w ! length (drop j a) = c"
        by (metis nth_append nth_append_length)
      with short assms(1) show False by (metis nth_mem)
    qed
    ultimately show ?thesis unfolding d by simp
  qed
qed

lemma ms_Look_Lit_Eol:
  "ms (Look (Alt (Lit w) Eol)) (i, p, xs, cs) k =
     (if startsWith xs w \<or> xs = [] then k (i, p, xs, cs) else None)"
  by (simp add: strip_id)

text \<open>
  A lazy group before a lookahead for a word or the end takes the whole input when the
  word occurs nowhere in it.
\<close>

lemma ms_lazy_to_end:
  assumes "c \<in> set w" and "c \<notin> set u"
  shows "ms (Seq (Group g (Star False any_char)) (Look (Alt (Lit w) Eol))) (i, p, u, cs) Some =
         Some (i + length u, lastc p u, [], cs(g \<mapsto> (i, i + length u)))"
proof -
  let ?k = "\<lambda>(j, q, ys, cs'). ms (Look (Alt (Lit w) Eol)) (j, q, ys, cs'(g \<mapsto> (i, j))) Some"
  have no: "\<not> startsWith (drop j u) w" for j
  proof
    assume "startsWith (drop j u) w"
    from startsWith_set[OF this] assms(1) have "c \<in> set (drop j u)" by auto
    with assms(2) show False by (metis in_set_dropD)
  qed
  have "star False any_char i p u cs ?k =
        Some (i + length u, lastc p u, [], cs(g \<mapsto> (i, i + length u)))"
  proof (rule lazy_star_first[where j = "length u"])
    show "length u \<le> length u" by simp
    show "?k (i + length u, lastc p (take (length u) u), drop (length u) u, cs) =
          Some (i + length u, lastc p u, [], cs(g \<mapsto> (i, i + length u)))"
      by (simp only: prod.case ms_Look_Lit_Eol) simp
    show "\<forall>j' < length u. ?k (i + j', lastc p (take j' u), drop j' u, cs) = None"
      using no by (simp only: prod.case ms_Look_Lit_Eol) auto
  qed
  then show ?thesis by simp
qed

text \<open>
  A lazy group before a word takes the input up to the word at its end, when the word
  cannot start earlier: the input before it ends with a character that is not in the
  word, and lacks one that is.
\<close>

lemma ms_lazy_to_word:
  assumes "c \<in> set w" and "c \<notin> set a" and "x \<notin> set w"
  shows "ms (Seq (Group g (Star False any_char)) (Lit w)) (i, p, a @ x # w, cs) Some =
         Some (i + length a + 1 + length w, lastc (Some x) w, [],
               cs(g \<mapsto> (i, i + length a + 1)))"
proof -
  let ?k = "\<lambda>(j, q, ys, cs'). ms (Lit w) (j, q, ys, cs'(g \<mapsto> (i, j))) Some"
  have no: "\<not> startsWith (drop j (a @ x # w)) w" if "j \<le> length a" for j
  proof -
    have "\<not> startsWith (drop j a) w"
    proof
      assume "startsWith (drop j a) w"
      from startsWith_set[OF this] assms(1) have "c \<in> set (drop j a)" by auto
      with assms(2) show False by (metis in_set_dropD)
    qed
    with startsWith_append_sep[OF assms(3) that, of w] show ?thesis by simp
  qed
  have "star False any_char i p (a @ x # w) cs ?k =
        Some (i + length a + 1 + length w, lastc (Some x) w, [],
              cs(g \<mapsto> (i, i + length a + 1)))"
  proof (rule lazy_star_first[where j = "length a + 1"])
    show "length a + 1 \<le> length (a @ x # w)" by simp
    show "?k (i + (length a + 1), lastc p (take (length a + 1) (a @ x # w)),
              drop (length a + 1) (a @ x # w), cs) =
          Some (i + length a + 1 + length w, lastc (Some x) w, [],
                cs(g \<mapsto> (i, i + length a + 1)))"
      by (simp add: strip_id startsWith_def lastc_def)
    show "\<forall>j' < length a + 1. ?k (i + j', lastc p (take j' (a @ x # w)),
                                    drop j' (a @ x # w), cs) = None"
      using no by (simp add: strip_id)
  qed
  then show ?thesis by simp
qed

subsection \<open>The input\<close>

definition many_items :: "nat \<Rightarrow> jsstring" where
  "many_items n = concat (replicate n (92 # lit ''item x''))"

definition many_items_document :: "nat \<Rightarrow> jsstring" where
  "many_items_document n =
     92 # lit ''begin{document}'' @ 92 # lit ''section{A}'' @ many_items n
     @ 92 # lit ''end{document}''"

lemma many_items_0 [simp]: "many_items 0 = []"
  by (simp add: many_items_def)

lemma many_items_Suc: "many_items (Suc n) = 92 # lit ''item x'' @ many_items n"
  by (simp add: many_items_def)

lemma many_items_snoc: "many_items (Suc n) = many_items n @ 92 # lit ''item '' @ [120]"
  by (induction n) (simp_all add: many_items_def lit_def)

lemma many_items_add: "many_items (j + k) = many_items j @ many_items k"
  by (simp add: many_items_def replicate_add)

lemma length_many_items: "length (many_items n) = 7 * n"
  by (induction n) (simp_all add: many_items_Suc lit_def)

lemma set_many_items: "set (many_items n) \<subseteq> {92, 105, 116, 101, 109, 32, 120}"
  by (induction n) (auto simp: many_items_Suc lit_def)

lemma drop_many_items: "drop (7 * j) (many_items (j + k)) = many_items k"
  by (simp add: many_items_add length_many_items)

subsection \<open>The section pattern on a section whose content has no \<^verbatim>\<open>s\<close>\<close>

lemma section_match:
  assumes "115 \<notin> set u"
  shows "ms sectionRegex (0, None, 92 # lit ''section{A}'' @ u, Map.empty) Some =
         Some (11 + length u, lastc (Some 125) u, [],
               [1 \<mapsto> (9, 10), 2 \<mapsto> (11, 11 + length u)])"
proof -
  define content where
    "content = Seq (Group 2 (Star False any_char)) (Look (Alt (Lit (92 # lit ''section'')) Eol))"
  have s: "sectionRegex =
     Seq (Lit (92 # lit ''section''))
    (Seq (Opt (Chr 42))
    (Seq (Chr 123)
    (Seq (Group 1 (Plus not_rbrace))
    (Seq (Chr 125) content))))"
    by (simp add: sectionRegex_def content_def)
  have "(115::nat) \<in> set (92 # lit ''section'')" by (simp add: lit_def)
  from ms_lazy_to_end[OF this assms, of 2 11 "Some 125" "[1 \<mapsto> (9, 10)]"]
  have c: "ms content (11, Some 125, u, [1 \<mapsto> (9, 10)]) Some =
           Some (11 + length u, lastc (Some 125) u, [], [1 \<mapsto> (9, 10), 2 \<mapsto> (11, 11 + length u)])"
    by (simp add: content_def)
  have "ms sectionRegex (0, None, 92 # lit ''section{A}'' @ u, Map.empty) Some =
        ms content (11, Some 125, u, [1 \<mapsto> (9, 10)]) Some"
    unfolding s by (simp add: regex_defs class_defs lit_def) (simp add: eval_nat_numeral)
  with c show ?thesis by simp
qed

lemma section_exec:
  assumes "115 \<notin> set u"
  shows "exec sectionRegex (92 # lit ''section{A}'' @ u) 0 =
         Some \<lparr>m_index = 0, m_lastIndex = 11 + length u,
               m_text = 92 # lit ''section{A}'' @ u,
               m_groups = [Some (lit ''A''), Some u]\<rparr>"
proof -
  have ng: "[Suc 0..<Suc (ngroups sectionRegex)] = [Suc 0, 2]"
    by (simp add: sectionRegex_def regex_defs upt_rec)
  have l: "length (92 # lit ''section{A}'' @ u) = 11 + length u" by (simp add: lit_def)
  note m = section_match[OF assms, unfolded lit_def, simplified]
  show ?thesis
    unfolding exec_def
    by (simp add: scan.simps[of sectionRegex] m ng slice_def lit_def del: upt_Suc)
qed

subsection \<open>The list-item pattern on the items\<close>

lemma item_match:
  assumes "rest = [] \<or> startsWith rest (92 # lit ''item'')"
  shows "\<exists>q cs. ms itemPattern (i, p, 92 # lit ''item x'' @ rest, Map.empty) Some =
                  Some (i + 7, q, rest, cs)"
  using assms
proof
  assume "rest = []"
  then show ?thesis by (simp add: itemPattern_def regex_defs class_defs lit_def)
next
  assume "startsWith rest (92 # lit ''item'')"
  then obtain v where "rest = (92 # lit ''item'') @ v" by (auto simp: startsWith_iff)
  then show ?thesis by (simp add: itemPattern_def regex_defs class_defs lit_def)
qed

lemma item_scan:
  assumes "rest = [] \<or> startsWith rest (92 # lit ''item'')"
  shows "\<exists>m. scan itemPattern i p (92 # lit ''item x'' @ rest) = Some m
              \<and> m_index m = i \<and> m_lastIndex m = i + 7"
proof -
  from item_match[OF assms, of i p] obtain q cs where
    "ms itemPattern (i, p, 92 # lit ''item x'' @ rest, Map.empty) Some = Some (i + 7, q, rest, cs)"
    by blast
  then show ?thesis by (simp add: scan.simps[of itemPattern i p])
qed

lemma item_scan_Nil: "scan itemPattern i p [] = None"
proof -
  have "ms itemPattern (i, p, [], Map.empty) Some = None"
    by (simp add: itemPattern_def lit_def)
  then show ?thesis by (simp add: scan.simps[of itemPattern i p])
qed

lemma many_items_rest: "many_items k = [] \<or> startsWith (many_items k) (92 # lit ''item'')"
  by (cases k) (simp_all add: many_items_Suc lit_def)

lemma item_exec:
  "\<exists>m. exec itemPattern (many_items (j + Suc k)) (7 * j) = Some m
        \<and> m_index m = 7 * j \<and> m_lastIndex m = 7 * j + 7"
proof -
  have "drop (7 * j) (many_items (j + Suc k)) = 92 # lit ''item x'' @ many_items k"
    by (simp only: drop_many_items many_items_Suc)
  with item_scan[OF many_items_rest[of k]] show ?thesis
    by (simp add: exec_def length_many_items)
qed

lemma item_exec_end: "exec itemPattern (many_items j) (7 * j) = None"
  by (simp add: exec_def length_many_items item_scan_Nil)

lemma item_matches: "length (matchAll itemPattern (many_items (j + k)) (7 * j)) = k"
proof (induction k arbitrary: j)
  case 0
  show ?case by (simp add: matchAll.simps[of itemPattern _ "7 * j"] item_exec_end)
next
  case (Suc k)
  from item_exec[of j k] obtain m where
    m: "exec itemPattern (many_items (j + Suc k)) (7 * j) = Some m"
      "m_index m = 7 * j" "m_lastIndex m = 7 * j + 7"
    by blast
  have "length (matchAll itemPattern (many_items (Suc j + k)) (7 * Suc j)) = k"
    by (rule Suc.IH)
  then have "length (matchAll itemPattern (many_items (j + Suc k)) (7 * j + 7)) = k"
    by (simp add: add.commute)
  with m show ?case by (simp add: matchAll.simps[of itemPattern _ "7 * j"])
qed

lemma many_items_found: "n \<le> length (projr (parseItems (many_items n) parent))"
  using item_matches[of 0 n] by (simp add: parseItems_matchAll length_itemsFrom)

subsection \<open>The body pattern on the document\<close>

lemma body_match:
  assumes "100 \<notin> set a"
  shows "ms bodyRegex
           (0, None, 92 # lit ''begin{document}'' @ a @ 120 # 92 # lit ''end{document}'',
            Map.empty) Some =
         Some (16 + length a + 1 + 14, Some 125, [], [1 \<mapsto> (16, 16 + length a + 1)])"
proof -
  define untilEnd where
    "untilEnd = Seq (Group 1 (Star False any_char)) (Lit (92 # lit ''end{document}''))"
  have s: "bodyRegex = Seq (Lit (92 # lit ''begin{document}'')) untilEnd"
    by (simp add: bodyRegex_def untilEnd_def)
  have "(100::nat) \<in> set (92 # lit ''end{document}'')"
    "(120::nat) \<notin> set (92 # lit ''end{document}'')"
    by (simp_all add: lit_def)
  from ms_lazy_to_word[OF this(1) assms this(2), of 1 16 "Some 125" Map.empty]
  have c: "ms untilEnd (16, Some 125, a @ 120 # 92 # lit ''end{document}'', Map.empty) Some =
           Some (16 + length a + 1 + 14, Some 125, [], [1 \<mapsto> (16, 16 + length a + 1)])"
    by (simp add: untilEnd_def lit_def)
  have "ms bodyRegex
          (0, None, 92 # lit ''begin{document}'' @ a @ 120 # 92 # lit ''end{document}'',
           Map.empty) Some =
        ms untilEnd (16, Some 125, a @ 120 # 92 # lit ''end{document}'', Map.empty) Some"
    unfolding s by (simp add: lit_def) (simp add: eval_nat_numeral)
  with c show ?thesis by simp
qed

lemma body_found:
  assumes "100 \<notin> set a"
  shows "\<exists>m. match (92 # lit ''begin{document}'' @ a @ 120 # 92 # lit ''end{document}'')
                bodyRegex = Some m
              \<and> grp m 1 = Some (a @ [120])"
proof -
  have ng: "[Suc 0..<Suc (ngroups bodyRegex)] = [Suc 0]"
    by (simp add: bodyRegex_def)
  note m = body_match[OF assms, unfolded lit_def, simplified]
  show ?thesis
    unfolding match_def exec_def
    by (simp add: scan.simps[of bodyRegex] m ng slice_def grp_def lit_def del: upt_Suc)
qed

lemma trim_same:
  assumes "s \<noteq> []" and "\<not> is_ws (hd s)" and "\<not> is_ws (last s)"
  shows "trim s = s"
proof -
  from assms(1,2) have "dropWhile is_ws s = s" by (cases s) simp_all
  moreover from assms(1,3) have "dropWhile is_ws (rev s) = rev s"
    by (cases s rule: rev_cases) simp_all
  ultimately show ?thesis by (simp add: trim_def)
qed

lemma many_items_parsed:
  "\<exists>items. parseItems (many_items n) parent = Inr items \<and> n \<le> length items"
  using item_matches[of 0 n] by (simp add: parseItems_matchAll length_itemsFrom)

text \<open>
  Claim C7 (defaults and totality). On the empty string the structural parser returns
  the document class \<^verbatim>\<open>article\<close>, no packages and no chunks. It is not total: on the
  document with one section that holds one item more than a call takes as arguments,
  the spread of the items raises a RangeError, whatever the limit of the engine is.
\<close>

theorem too_many_items_range_error:
  "parseLatexFile lc maxArgs [] =
     Inr \<lparr>preamble = [], activeChunks = [], standbyChunks = [],
          documentClass = Some (lit ''article''), packages = []\<rparr>
   \<and> parseLatexFile lc maxArgs (many_items_document (Suc maxArgs)) = Inl RangeError"
proof
  show "parseLatexFile lc maxArgs [] =
          Inr \<lparr>preamble = [], activeChunks = [], standbyChunks = [],
               documentClass = Some (lit ''article''), packages = []\<rparr>"
    by (simp add: eval)
  define u where "u = many_items (Suc maxArgs)"
  define body where "body = 92 # lit ''section{A}'' @ u"
  define a where "a = 92 # lit ''section{A}'' @ many_items maxArgs @ 92 # lit ''item ''"
  have body_a: "body = a @ [120]"
    by (simp add: body_def u_def a_def many_items_snoc)
  have doc: "many_items_document (Suc maxArgs) =
               92 # lit ''begin{document}'' @ a @ 120 # 92 # lit ''end{document}''"
    by (simp add: many_items_document_def a_def many_items_snoc)
  have na: "100 \<notin> set a"
    using set_many_items[of maxArgs] by (auto simp: a_def lit_def)
  have nu: "115 \<notin> set u"
    using set_many_items[of "Suc maxArgs"] by (auto simp: u_def)
  from body_found[OF na] obtain m where
    m: "match (many_items_document (Suc maxArgs)) bodyRegex = Some m" "grp m 1 = Some body"
    by (auto simp: doc body_a)
  have tb: "trim body = body"
  proof (rule trim_same)
    show "body \<noteq> []" by (simp add: body_def)
    show "\<not> is_ws (hd body)" by (simp add: body_def is_ws_def)
    show "\<not> is_ws (last body)" by (simp add: body_a is_ws_def)
  qed
  have tu: "trim u = u"
  proof (rule trim_same)
    show "u \<noteq> []" by (simp add: u_def many_items_Suc)
    show "\<not> is_ws (hd u)" by (simp add: u_def many_items_Suc is_ws_def)
    show "\<not> is_ws (last u)" by (simp add: u_def many_items_snoc is_ws_def)
  qed
  have "1 \<in> sure preambleRegex" by (simp add: preambleRegex_def)
  then have "\<exists>pre. (case match (many_items_document (Suc maxArgs)) preambleRegex of
                  None \<Rightarrow> Inr []
                | Some m \<Rightarrow> (case grp m 1 of None \<Rightarrow> Inl TypeError | Some g \<Rightarrow> Inr (trim g)))
               = Inr pre"
    using exec_props(4)[of preambleRegex "many_items_document (Suc maxArgs)" 0 _ 1]
    by (cases "match (many_items_document (Suc maxArgs)) preambleRegex")
       (auto simp: match_def)
  then obtain pre where
    pre: "(case match (many_items_document (Suc maxArgs)) preambleRegex of
                  None \<Rightarrow> Inr []
                | Some m \<Rightarrow> (case grp m 1 of None \<Rightarrow> Inl TypeError | Some g \<Rightarrow> Inr (trim g)))
               = Inr pre" ..
  from many_items_parsed[of "Suc maxArgs" "lit ''section-'' @ show_nat 0"] obtain items where
    items: "parseItems u (lit ''section-'' @ show_nat 0) = Inr items" "maxArgs < length items"
    by (auto simp: u_def)
  have "exec sectionRegex body 0 =
          Some \<lparr>m_index = 0, m_lastIndex = 11 + length u, m_text = body,
                m_groups = [Some (lit ''A''), Some u]\<rparr>"
    unfolding body_def by (rule section_exec[OF nu])
  with items tu have "parseSections lc maxArgs body = Inl RangeError"
    by (simp add: parseSections_def sectionLoop.simps[of lc maxArgs body 0] grp_def)
  with pre m tb
  show "parseLatexFile lc maxArgs (many_items_document (Suc maxArgs)) = Inl RangeError"
    by (simp add: parseLatexFile_def)
qed

end
